theory Spec2Isabelle
  imports Main "HOL-Library.Word" "HOL-Library.Sublist"
begin

unbundle bit_operations_syntax

section \<open>Event masks and error numbers\<close>

type_synonym events = "32 word"

text \<open>
  The values of \<^verbatim>\<open>enum IO_Event\<close> (declared in \<^verbatim>\<open>selector.h\<close>, which is not among the
  sources): the distinct bits the spec names READABLE, PRIORITY, WRITABLE and EXIT, with the
  values of Ruby's \<^verbatim>\<open>RUBY_IO_READABLE\<close>, \<^verbatim>\<open>RUBY_IO_PRIORITY\<close> and \<^verbatim>\<open>RUBY_IO_WRITABLE\<close>.
\<close>

definition IO_EVENT_READABLE :: events where "IO_EVENT_READABLE = 1"
definition IO_EVENT_PRIORITY :: events where "IO_EVENT_PRIORITY = 2"
definition IO_EVENT_WRITABLE :: events where "IO_EVENT_WRITABLE = 4"
definition IO_EVENT_EXIT :: events where "IO_EVENT_EXIT = 32"

text \<open>
  The errno values the code compares against, as Linux numbers them; \<^verbatim>\<open>EAGAIN\<close> is 35 on
  the BSDs and macOS, where \<^verbatim>\<open>kqueue.c\<close> is built.
\<close>

definition EAGAIN :: int where "EAGAIN = 11"
definition BSD_EAGAIN :: int where "BSD_EAGAIN = 35"
definition EPERM :: int where "EPERM = 1"
definition EINTR :: int where "EINTR = 4"

section \<open>The intrusive list\<close>

text \<open>
  \<^verbatim>\<open>struct IO_Event_List\<close> is a node of a circular doubly-linked list: two pointers,
  \<^verbatim>\<open>head\<close> and \<^verbatim>\<open>tail\<close>. A pointer is an address or \<^verbatim>\<open>NULL\<close> (\<open>None\<close>); the heap maps
  every address to the node stored there. The list head of a descriptor record, the
  \<^verbatim>\<open>list\<close> member at the start of a waiter and the local \<^verbatim>\<open>saved\<close> of the dispatch are all
  such nodes.
\<close>

datatype addr =
    Descriptor_list int   \<comment> \<open>the \<^verbatim>\<open>list\<close> member of the descriptor record with this index\<close>
  | Stack nat             \<comment> \<open>a node in a stack frame: a waiter, or the \<^verbatim>\<open>saved\<close> of a dispatch\<close>

record IO_Event_List =
  head :: "addr option"
  tail :: "addr option"

type_synonym heap = "addr \<Rightarrow> IO_Event_List"

text \<open>
  Modelled from the spec: the functions of \<^verbatim>\<open>list.h\<close>, which is not among the sources.
  The spec gives a circular doubly-linked list whose node type serves as list head and as
  entry, with prepend, append-adjacent, remove and an empty check; a waiter is inserted at
  the head of its descriptor's list, and the dispatch splices the local \<^verbatim>\<open>saved\<close> next to
  the current node so that the node to continue with is read from the \<^verbatim>\<open>tail\<close> of
  \<^verbatim>\<open>saved\<close>. A function that would follow a \<^verbatim>\<open>NULL\<close> pointer has no result.

  \<^verbatim>\<open>IO_Event_List_initialize(list)\<close>: both pointers of the head point at the head itself.
\<close>

definition IO_Event_List_initialize :: "addr \<Rightarrow> heap \<Rightarrow> heap" where
  "IO_Event_List_initialize list h = h(list := \<lparr>head = Some list, tail = Some list\<rparr>)"

text \<open>
  Modelled from the spec: \<^verbatim>\<open>IO_Event_List_prepend(list, node)\<close> of \<^verbatim>\<open>list.h\<close> links
  \<^verbatim>\<open>node\<close> between \<^verbatim>\<open>list\<close> and the node that \<^verbatim>\<open>list->tail\<close> pointed at.
\<close>

definition IO_Event_List_prepend :: "addr \<Rightarrow> addr \<Rightarrow> heap \<Rightarrow> heap option" where
  "IO_Event_List_prepend list node h =
    (case tail (h list) of
       None \<Rightarrow> None
     | Some t \<Rightarrow>
        (let h1 = h(node := \<lparr>head = Some list, tail = Some t\<rparr>);
             h2 = h1(list := (h1 list)\<lparr>tail := Some node\<rparr>);
             h3 = h2(t := (h2 t)\<lparr>head := Some node\<rparr>)
         in Some h3))"

text \<open>
  Modelled from the spec: \<^verbatim>\<open>IO_Event_List_append(list, node)\<close> of \<^verbatim>\<open>list.h\<close> links
  \<^verbatim>\<open>node\<close> between the node that \<^verbatim>\<open>list->head\<close> pointed at and \<^verbatim>\<open>list\<close>, so that
  \<^verbatim>\<open>node->tail\<close> is \<^verbatim>\<open>list\<close>.
\<close>

definition IO_Event_List_append :: "addr \<Rightarrow> addr \<Rightarrow> heap \<Rightarrow> heap option" where
  "IO_Event_List_append list node h =
    (case head (h list) of
       None \<Rightarrow> None
     | Some hd0 \<Rightarrow>
        (let h1 = h(node := \<lparr>head = Some hd0, tail = Some list\<rparr>);
             h2 = h1(list := (h1 list)\<lparr>head := Some node\<rparr>);
             h3 = h2(hd0 := (h2 hd0)\<lparr>tail := Some node\<rparr>)
         in Some h3))"

text \<open>
  Modelled from the spec: \<^verbatim>\<open>IO_Event_List_pop(node)\<close> of \<^verbatim>\<open>list.h\<close> links the two
  neighbours of \<^verbatim>\<open>node\<close> to each other and clears the pointers of \<^verbatim>\<open>node\<close>.
\<close>

definition IO_Event_List_pop :: "addr \<Rightarrow> heap \<Rightarrow> heap option" where
  "IO_Event_List_pop node h =
    (case (head (h node), tail (h node)) of
       (Some hd0, Some tl0) \<Rightarrow>
        (let h1 = h(hd0 := (h hd0)\<lparr>tail := Some tl0\<rparr>);
             h2 = h1(tl0 := (h1 tl0)\<lparr>head := Some hd0\<rparr>);
             h3 = h2(node := \<lparr>head = None, tail = None\<rparr>)
         in Some h3)
     | _ \<Rightarrow> None)"

text \<open>
  The shape of a well-formed list. \<open>chain nx p xs q\<close>: following the pointer \<open>nx\<close> from
  \<open>p\<close> visits exactly \<open>xs\<close>, in order, and then reaches \<open>q\<close>. \<open>dll h list xs\<close>: from the
  head \<open>list\<close>, the \<^verbatim>\<open>tail\<close> pointers run through the nodes \<open>xs\<close> and back to \<open>list\<close>,
  the \<^verbatim>\<open>head\<close> pointers run through them the other way round, and no node occurs twice.
\<close>

fun chain :: "(addr \<Rightarrow> addr option) \<Rightarrow> addr \<Rightarrow> addr list \<Rightarrow> addr \<Rightarrow> bool" where
  "chain nx p [] q = (nx p = Some q)"
| "chain nx p (x # xs) q = (nx p = Some x \<and> chain nx x xs q)"

definition dll :: "heap \<Rightarrow> addr \<Rightarrow> addr list \<Rightarrow> bool" where
  "dll h list xs =
    (distinct (list # xs) \<and> chain (\<lambda>a. tail (h a)) list xs list
      \<and> chain (\<lambda>a. head (h a)) list (rev xs) list)"

section \<open>State shared by both backends\<close>

text \<open>
  A fiber is identified by a number. A Ruby \<^verbatim>\<open>VALUE\<close> that the wait primitives receive or
  return is \<^verbatim>\<open>nil\<close>, \<^verbatim>\<open>false\<close>, an Integer holding a 32-bit mask, or some other object.
\<close>

type_synonym fiber = nat

datatype VALUE = Qnil | Qfalse | Integer "32 word" | Object nat

definition RTEST :: "VALUE \<Rightarrow> bool" where
  "RTEST v = (v \<noteq> Qnil \<and> v \<noteq> Qfalse)"

datatype error =
    Sys_fail string        \<comment> \<open>\<^verbatim>\<open>rb_sys_fail\<close> with its message\<close>
  | Runtime_error string   \<comment> \<open>\<^verbatim>\<open>rb_raise(rb_eRuntimeError, ...)\<close>\<close>
  | Type_error             \<comment> \<open>a conversion such as \<^verbatim>\<open>NUM2INT\<close> applied to a non-number\<close>
  | Host_exception nat     \<comment> \<open>an exception the host raises into a suspended fiber\<close>

definition NUM2INT :: "VALUE \<Rightarrow> error + 32 word" where
  "NUM2INT v = (case v of Integer n \<Rightarrow> Inr n | _ \<Rightarrow> Inl Type_error)"

text \<open>What a suspended fiber is resumed with: a value, or an exception raised into it.\<close>

datatype resumption = Resume VALUE | Throw error

text \<open>The \<^verbatim>\<open>struct kevent\<close> of kqueue; \<^verbatim>\<open>udata\<close> points at a descriptor record or is \<^verbatim>\<open>NULL\<close>.\<close>

record kevent =
  ev_ident :: int
  ev_filter :: int
  ev_flags :: "16 word"
  ev_fflags :: "32 word"
  ev_udata :: "int option"

datatype epoll_op = EPOLL_CTL_ADD | EPOLL_CTL_DEL | EPOLL_CTL_MOD

text \<open>
  The calls a wait primitive or a dispatch makes to the kernel and to the host runtime, kept
  in the order they are made.
\<close>

datatype call =
    Epoll_ctl epoll_op int "32 word"   \<comment> \<open>\<^verbatim>\<open>epoll_ctl(selector->descriptor, op, fd, {events})\<close>\<close>
  | Kevent "kevent list"               \<comment> \<open>\<^verbatim>\<open>kevent(selector->descriptor, changes, count, NULL, 0, NULL)\<close>\<close>
  | Pidfd_open int
  | Close int
  | Queue_push fiber                   \<comment> \<open>\<^verbatim>\<open>IO_Event_Selector_queue_push\<close>\<close>
  | Yield                              \<comment> \<open>\<^verbatim>\<open>IO_Event_Selector_yield\<close>\<close>
  | Process_status_wait int            \<comment> \<open>\<^verbatim>\<open>IO_Event_Selector_process_status_wait\<close>\<close>
  | Interrupt_clear

definition kernel_call :: "call \<Rightarrow> bool" where
  "kernel_call c = (case c of
      Epoll_ctl _ _ _ \<Rightarrow> True | Kevent _ \<Rightarrow> True | Pidfd_open _ \<Rightarrow> True | Close _ \<Rightarrow> True
    | Process_status_wait _ \<Rightarrow> True | Interrupt_clear \<Rightarrow> True
    | Queue_push _ \<Rightarrow> False | Yield \<Rightarrow> False)"

text \<open>
  The memory the selector works on: the list nodes, and for the address of a waiter
  (\<^verbatim>\<open>struct IO_Event_Selector_EPoll_Waiting\<close>, \<^verbatim>\<open>struct IO_Event_Selector_KQueue_Waiting\<close>, whose
  first member is the list node) its \<^verbatim>\<open>events\<close> and \<^verbatim>\<open>fiber\<close> members. \<open>calls\<close> and
  \<open>transfers\<close> are no members of the source: they keep what has happened, \<open>transfers\<close> the
  fibers that the host has switched to, each with the argument it was given, in order. The
  host writes it when it switches; the selector never does.
\<close>

record selector =
  links :: heap
  waiting_events :: "addr \<Rightarrow> events"
  waiting_fiber :: "addr \<Rightarrow> fiber"
  calls :: "call list"
  transfers :: "(fiber \<times> events) list"

definition call :: "call \<Rightarrow> 'a selector_scheme \<Rightarrow> 'a selector_scheme" where
  "call c st = st\<lparr>calls := calls st @ [c]\<rparr>"

text \<open>
  Modelled from the spec: \<^verbatim>\<open>IO_Event_Array_lookup\<close> of \<^verbatim>\<open>array.h\<close>, which is not among
  the sources. The descriptor array maps a nonnegative descriptor id to its record, which it
  creates and initialises on first use; there is no record (\<^verbatim>\<open>NULL\<close>) for a negative id.
  In this model every record exists from the start, initialised.
\<close>

definition IO_Event_Array_lookup :: "int \<Rightarrow> int option" where
  "IO_Event_Array_lookup descriptor = (if descriptor < 0 then None else Some descriptor)"

text \<open>A waiter on the stack: the struct initialiser sets the two members and zeroes the node.\<close>

definition waiting_init :: "addr \<Rightarrow> fiber \<Rightarrow> events \<Rightarrow> 'a selector_scheme \<Rightarrow> 'a selector_scheme" where
  "waiting_init waiting fiber events st =
    st\<lparr>links := (links st)(waiting := \<lparr>head = None, tail = None\<rparr>),
       waiting_events := (waiting_events st)(waiting := events),
       waiting_fiber := (waiting_fiber st)(waiting := fiber)\<rparr>"

definition list_prepend :: "addr \<Rightarrow> addr \<Rightarrow> 'a selector_scheme \<Rightarrow> 'a selector_scheme option" where
  "list_prepend list node st =
    map_option (\<lambda>h. st\<lparr>links := h\<rparr>) (IO_Event_List_prepend list node (links st))"

definition list_append :: "addr \<Rightarrow> addr \<Rightarrow> 'a selector_scheme \<Rightarrow> 'a selector_scheme option" where
  "list_append list node st =
    map_option (\<lambda>h. st\<lparr>links := h\<rparr>) (IO_Event_List_append list node (links st))"

definition list_pop :: "addr \<Rightarrow> 'a selector_scheme \<Rightarrow> 'a selector_scheme option" where
  "list_pop node st =
    map_option (\<lambda>h. st\<lparr>links := h\<rparr>) (IO_Event_List_pop node (links st))"

text \<open>
  What a suspended wait primitive has reached: it is parked (the waiter is linked and the
  fiber has transferred to the host loop), it has completed with a value, or it has raised.
\<close>

datatype 's progress = Suspended 's | Completed VALUE 's | Failed error 's

subsection \<open>The dispatch loop\<close>

text \<open>
  The \<^verbatim>\<open>while (node != list)\<close> loop of \<^verbatim>\<open>IO_Event_Selector_EPoll_handle\<close>. \<open>transfer\<close> is
  \<^verbatim>\<open>IO_Event_Selector_fiber_transfer(waiting->fiber, 1, &argument)\<close>: the host runs the
  resumed fiber up to its next suspension and gives back the state it leaves (no state if
  the fiber crashes). The loop gives back the transfers it made, in order, each with its
  argument, the accumulated \<^verbatim>\<open>matched_events\<close> and the final state. The loop need not
  end, so it runs on fuel: \<open>None\<close> when the fuel runs out, and when a \<^verbatim>\<open>NULL\<close> pointer
  would be followed.
\<close>

fun EPoll_handle_loop ::
  "nat \<Rightarrow> (fiber \<Rightarrow> events \<Rightarrow> 'a selector_scheme \<Rightarrow> 'a selector_scheme option) \<Rightarrow> events
    \<Rightarrow> addr \<Rightarrow> addr \<Rightarrow> addr \<Rightarrow> events \<Rightarrow> 'a selector_scheme
    \<Rightarrow> ((fiber \<times> events) list \<times> events \<times> 'a selector_scheme) option"
where
  "EPoll_handle_loop 0 transfer io_event list saved node matched_events st = None"
| "EPoll_handle_loop (Suc fuel) transfer io_event list saved node matched_events st =
    (if node = list then Some ([], matched_events, st)
     else
       (let matching_events = waiting_events st node AND io_event
        in if matching_events \<noteq> 0 then
             (case list_append node saved st of
                None \<Rightarrow> None
              | Some st1 \<Rightarrow>
                 (case transfer (waiting_fiber st1 node) matching_events st1 of
                    None \<Rightarrow> None
                  | Some st2 \<Rightarrow>
                     (case tail (links st2 saved) of
                        None \<Rightarrow> None
                      | Some node' \<Rightarrow>
                         (case list_pop saved st2 of
                            None \<Rightarrow> None
                          | Some st3 \<Rightarrow>
                             map_option
                               (\<lambda>(resumed, m, s). ((waiting_fiber st1 node, matching_events) # resumed, m, s))
                               (EPoll_handle_loop fuel transfer io_event list saved node'
                                  (matched_events OR matching_events) st3)))))
           else
             (case tail (links st node) of
                None \<Rightarrow> None
              | Some node' \<Rightarrow>
                 EPoll_handle_loop fuel transfer io_event list saved node' matched_events st)))"

text \<open>The same loop in \<^verbatim>\<open>IO_Event_Selector_KQueue_handle\<close>, which keeps no \<^verbatim>\<open>matched_events\<close>.\<close>

fun KQueue_handle_loop ::
  "nat \<Rightarrow> (fiber \<Rightarrow> events \<Rightarrow> 'a selector_scheme \<Rightarrow> 'a selector_scheme option) \<Rightarrow> events
    \<Rightarrow> addr \<Rightarrow> addr \<Rightarrow> addr \<Rightarrow> 'a selector_scheme
    \<Rightarrow> ((fiber \<times> events) list \<times> 'a selector_scheme) option"
where
  "KQueue_handle_loop 0 transfer io_event list saved node st = None"
| "KQueue_handle_loop (Suc fuel) transfer io_event list saved node st =
    (if node = list then Some ([], st)
     else
       (let matching_events = waiting_events st node AND io_event
        in if matching_events \<noteq> 0 then
             (case list_append node saved st of
                None \<Rightarrow> None
              | Some st1 \<Rightarrow>
                 (case transfer (waiting_fiber st1 node) matching_events st1 of
                    None \<Rightarrow> None
                  | Some st2 \<Rightarrow>
                     (case tail (links st2 saved) of
                        None \<Rightarrow> None
                      | Some node' \<Rightarrow>
                         (case list_pop saved st2 of
                            None \<Rightarrow> None
                          | Some st3 \<Rightarrow>
                             map_option
                               (\<lambda>(resumed, s). ((waiting_fiber st1 node, matching_events) # resumed, s))
                               (KQueue_handle_loop fuel transfer io_event list saved node' st3)))))
           else
             (case tail (links st node) of
                None \<Rightarrow> None
              | Some node' \<Rightarrow>
                 KQueue_handle_loop fuel transfer io_event list saved node' st)))"

definition progress_state :: "'s progress \<Rightarrow> 's" where
  "progress_state p = (case p of Suspended s \<Rightarrow> s | Completed v s \<Rightarrow> s | Failed e s \<Rightarrow> s)"

text \<open>
  What the dispatch relies on from a resumed fiber, for the list \<open>list\<close> with the waiters
  \<open>ws\<close>, whose \<^verbatim>\<open>events\<close> and \<^verbatim>\<open>fiber\<close> members are \<open>ev\<close> and \<open>fb\<close>: whenever the
  fiber of a waiter \<open>w\<close> is resumed while \<open>saved\<close> is linked in front of \<open>w\<close>, it runs
  without crashing and leaves a well-formed list in which \<open>w\<close> is unlinked, \<open>saved\<close> is
  still linked, and the waiters \<open>post\<close> behind \<open>w\<close> are as they were. Which nodes are linked
  on the other side of \<open>saved\<close> is up to the fiber: it may link new waiters and unlink
  waiters there. The host has noted the switch.
\<close>

definition resumed_fiber_unlinks ::
  "(fiber \<Rightarrow> events \<Rightarrow> 'a selector_scheme \<Rightarrow> 'a selector_scheme option) \<Rightarrow> addr \<Rightarrow> addr
    \<Rightarrow> addr list \<Rightarrow> (addr \<Rightarrow> events) \<Rightarrow> (addr \<Rightarrow> fiber) \<Rightarrow> events \<Rightarrow> bool"
where
  "resumed_fiber_unlinks transfer list saved ws ev fb io_event =
    (\<forall>s pre w post.
       set (w # post) \<subseteq> set ws
       \<and> dll (links s) list (pre @ saved # w # post)
       \<and> (\<forall>m \<in> set (w # post). waiting_events s m = ev m \<and> waiting_fiber s m = fb m)
       \<and> ev w AND io_event \<noteq> 0
       \<longrightarrow> (\<exists>s' pre'. transfer (fb w) (ev w AND io_event) s = Some s'
              \<and> dll (links s') list (pre' @ saved # post)
              \<and> (\<forall>m \<in> set post. waiting_events s' m = ev m \<and> waiting_fiber s' m = fb m)
              \<and> transfers s' = transfers s @ [(fb w, ev w AND io_event)]))"

text \<open>
  The same with less asked of the fiber: it may also unlink waiters behind \<open>w\<close>, which the
  walk has not reached yet, so that the waiters \<open>post'\<close> left behind \<open>saved\<close> are some of
  \<open>post\<close>, in the same order. \<open>W\<close> are the waiters that a resumed fiber may unlink without
  knowing whether they are linked; \<open>parked_on h list W xs\<close> says that the list is
  well-formed and that each of them is on the list or has null pointers.
\<close>

definition parked_on :: "heap \<Rightarrow> addr \<Rightarrow> addr set \<Rightarrow> addr list \<Rightarrow> bool" where
  "parked_on h list W xs =
    (dll h list xs \<and> list \<notin> W \<and> (\<forall>m \<in> W. m \<notin> set xs \<longrightarrow> h m = \<lparr>head = None, tail = None\<rparr>))"

definition resumed_fiber_keeps_cursor ::
  "(fiber \<Rightarrow> events \<Rightarrow> 'a selector_scheme \<Rightarrow> 'a selector_scheme option) \<Rightarrow> addr \<Rightarrow> addr
    \<Rightarrow> addr set \<Rightarrow> addr list \<Rightarrow> (addr \<Rightarrow> events) \<Rightarrow> (addr \<Rightarrow> fiber) \<Rightarrow> events \<Rightarrow> bool"
where
  "resumed_fiber_keeps_cursor transfer list saved W ws ev fb io_event =
    (\<forall>s pre w post.
       set (w # post) \<subseteq> set ws
       \<and> parked_on (links s) list W (pre @ saved # w # post)
       \<and> (\<forall>m \<in> set (w # post). waiting_events s m = ev m \<and> waiting_fiber s m = fb m)
       \<and> ev w AND io_event \<noteq> 0
       \<longrightarrow> (\<exists>s' pre' post'. transfer (fb w) (ev w AND io_event) s = Some s'
              \<and> parked_on (links s') list W (pre' @ saved # post')
              \<and> subseq post' post
              \<and> (\<forall>m \<in> set post'. waiting_events s' m = ev m \<and> waiting_fiber s' m = fb m)
              \<and> transfers s' = transfers s @ [(fb w, ev w AND io_event)]))"

text \<open>
  The transfers that a dispatch of the events \<open>io_event\<close> owes to the waiters \<open>ws\<close>, in the
  words of the spec: each waiter whose requested mask intersects the fired events, once, in
  the order of the walk, with the intersection as the argument.
\<close>

definition matching_waiters ::
  "(addr \<Rightarrow> events) \<Rightarrow> (addr \<Rightarrow> fiber) \<Rightarrow> events \<Rightarrow> addr list \<Rightarrow> (fiber \<times> events) list"
where
  "matching_waiters ev fb io_event ws =
    map (\<lambda>w. (fb w, ev w AND io_event)) (filter (\<lambda>w. ev w AND io_event \<noteq> 0) ws)"

text \<open>
  The dispatch in the words of the spec, on the waiters \<open>ws\<close> that are on the list, in the
  order of the walk: the walk takes the waiters one after the other. One whose mask does not
  intersect the fired events is passed over. One whose mask intersects them is resumed, with
  \<^verbatim>\<open>saved\<close> spliced in front of it and the intersection as argument; the walk goes on with
  the waiters \<open>post'\<close> that are on the list behind \<^verbatim>\<open>saved\<close> when the fiber has given up
  control again. \<open>resumed_in_turn transfer list saved io_event ws s rs s'\<close>: from the state
  \<open>s\<close> the walk over \<open>ws\<close> makes the transfers \<open>rs\<close> and ends in \<open>s'\<close>.
\<close>

inductive resumed_in_turn ::
  "(fiber \<Rightarrow> events \<Rightarrow> 'a selector_scheme \<Rightarrow> 'a selector_scheme option) \<Rightarrow> addr \<Rightarrow> addr \<Rightarrow> events
    \<Rightarrow> addr list \<Rightarrow> 'a selector_scheme \<Rightarrow> (fiber \<times> events) list \<Rightarrow> 'a selector_scheme \<Rightarrow> bool"
  for transfer list saved io_event
where
  finished: "resumed_in_turn transfer list saved io_event [] s [] s"
| passed_over:
    "waiting_events s w AND io_event = 0
     \<Longrightarrow> resumed_in_turn transfer list saved io_event post s rs s'
     \<Longrightarrow> resumed_in_turn transfer list saved io_event (w # post) s rs s'"
| resumed:
    "waiting_events s w AND io_event \<noteq> 0
     \<Longrightarrow> list_append w saved s = Some s1
     \<Longrightarrow> transfer (waiting_fiber s w) (waiting_events s w AND io_event) s1 = Some s2
     \<Longrightarrow> dll (links s2) list (pre' @ saved # post')
     \<Longrightarrow> list_pop saved s2 = Some s3
     \<Longrightarrow> resumed_in_turn transfer list saved io_event post' s3 rs s'
     \<Longrightarrow> resumed_in_turn transfer list saved io_event (w # post) s
           ((waiting_fiber s w, waiting_events s w AND io_event) # rs) s'"

text \<open>
  Modelled from the spec: \<^verbatim>\<open>IO_Event_Selector_fiber_transfer\<close> of \<^verbatim>\<open>selector.c\<close> and the
  host runtime behind it, which are not among the sources. The resumed fiber runs inline up
  to its next suspension. What it does to the selector until then is a sequence of steps of
  the wait primitives: it leaves the \<^verbatim>\<open>io_wait\<close> it was parked in (the part of \<^verbatim>\<open>io_wait\<close>
  after the transfer, with what the fiber was resumed with), and it may enter \<^verbatim>\<open>io_wait\<close>
  again (the part up to the transfer, with the answer of the kernel to the arming call).
\<close>

datatype wait_step =
    Leave_io_wait resumption addr
  | Enter_io_wait "int option" fiber int events addr

section \<open>The epoll backend\<close>

text \<open>The event bits of \<^verbatim>\<open><sys/epoll.h>\<close> that \<^verbatim>\<open>epoll.c\<close> uses.\<close>

definition EPOLLIN :: "32 word" where "EPOLLIN = 0x001"
definition EPOLLPRI :: "32 word" where "EPOLLPRI = 0x002"
definition EPOLLOUT :: "32 word" where "EPOLLOUT = 0x004"
definition EPOLLERR :: "32 word" where "EPOLLERR = 0x008"
definition EPOLLHUP :: "32 word" where "EPOLLHUP = 0x010"
definition EPOLLONESHOT :: "32 word" where "EPOLLONESHOT = 0x40000000"

text \<open>
  \<^verbatim>\<open>struct IO_Event_Selector_EPoll_Descriptor\<close>: the list head of the record of descriptor
  \<open>d\<close> lives at the address \<open>Descriptor_list d\<close>, its \<^verbatim>\<open>events\<close> member is
  \<open>descriptor_events st d\<close>. \<^verbatim>\<open>IO_Event_Selector_EPoll_Descriptor_initialize\<close> gives a
  record an empty list and \<^verbatim>\<open>events = 0\<close>.

  \<open>interest st fd\<close> is the kernel's side of the epoll instance: whether \<open>fd\<close> is in its
  interest list. A successful \<^verbatim>\<open>EPOLL_CTL_ADD\<close> puts a descriptor there,
  \<^verbatim>\<open>EPOLL_CTL_DEL\<close> and \<^verbatim>\<open>close\<close> take it out, and the kernel reports events only for
  descriptors that are in it.
\<close>

record epoll = selector +
  descriptor_events :: "int \<Rightarrow> events"
  interest :: "int \<Rightarrow> bool"

definition epoll_ctl_done :: "epoll_op \<Rightarrow> int \<Rightarrow> epoll \<Rightarrow> epoll" where
  "epoll_ctl_done operation fd st =
    (case operation of
       EPOLL_CTL_ADD \<Rightarrow> st\<lparr>interest := (interest st)(fd := True)\<rparr>
     | EPOLL_CTL_DEL \<Rightarrow> st\<lparr>interest := (interest st)(fd := False)\<rparr>
     | EPOLL_CTL_MOD \<Rightarrow> st)"

definition EPoll_initial :: epoll where
  "EPoll_initial =
    \<lparr>links = (\<lambda>a. case a of
                 Descriptor_list d \<Rightarrow> \<lparr>head = Some a, tail = Some a\<rparr>
               | Stack k \<Rightarrow> \<lparr>head = None, tail = None\<rparr>),
     waiting_events = (\<lambda>a. 0), waiting_fiber = (\<lambda>a. 0), calls = [], transfers = [],
     descriptor_events = (\<lambda>d. 0), interest = (\<lambda>d. False)\<rparr>"

definition IO_Event_Selector_EPoll_Descriptor_lookup :: "int \<Rightarrow> error + int" where
  "IO_Event_Selector_EPoll_Descriptor_lookup descriptor =
    (case IO_Event_Array_lookup descriptor of
       None \<Rightarrow> Inl (Sys_fail ''IO_Event_Selector_EPoll_Descriptor_lookup:IO_Event_Array_lookup'')
     | Some d \<Rightarrow> Inr d)"

definition epoll_flags_from_events :: "events \<Rightarrow> 32 word" where
  "epoll_flags_from_events events =
    (let flags = 0;
         flags = (if events AND IO_EVENT_READABLE \<noteq> 0 then flags OR EPOLLIN else flags);
         flags = (if events AND IO_EVENT_PRIORITY \<noteq> 0 then flags OR EPOLLPRI else flags);
         flags = (if events AND IO_EVENT_WRITABLE \<noteq> 0 then flags OR EPOLLOUT else flags);
         flags = flags OR EPOLLHUP;
         flags = flags OR EPOLLERR
     in flags)"

definition events_from_epoll_flags :: "32 word \<Rightarrow> events" where
  "events_from_epoll_flags flags =
    (let events = 0;
         events = (if flags AND (EPOLLIN OR EPOLLHUP OR EPOLLERR) \<noteq> 0
                   then events OR IO_EVENT_READABLE else events);
         events = (if flags AND EPOLLPRI \<noteq> 0 then events OR IO_EVENT_PRIORITY else events);
         events = (if flags AND EPOLLOUT \<noteq> 0 then events OR IO_EVENT_WRITABLE else events)
     in events)"

subsection \<open>\<^verbatim>\<open>io_wait\<close>\<close>

text \<open>
  \<^verbatim>\<open>IO_Event_Selector_EPoll_io_wait\<close> up to the point where the fiber gives up control.
  \<open>ctl_errno\<close> is what \<^verbatim>\<open>epoll_ctl\<close> answers if it is called: \<open>None\<close> for success,
  \<open>Some e\<close> for \<open>-1\<close> with \<^verbatim>\<open>errno = e\<close>. \<open>waiting\<close> is the address of the local
  \<^verbatim>\<open>waiting\<close>. On \<^verbatim>\<open>EPERM\<close> the fiber is pushed on the ready queue, yields, and returns
  \<^verbatim>\<open>events\<close> when the yield returns.
\<close>

definition IO_Event_Selector_EPoll_io_wait ::
  "int option \<Rightarrow> fiber \<Rightarrow> int \<Rightarrow> events \<Rightarrow> addr \<Rightarrow> epoll \<Rightarrow> epoll progress option"
where
  "IO_Event_Selector_EPoll_io_wait ctl_errno fiber descriptor events waiting st =
    (case IO_Event_Selector_EPoll_Descriptor_lookup descriptor of
       Inl e \<Rightarrow> Some (Failed e st)
     | Inr d \<Rightarrow>
        (let st0 = waiting_init waiting fiber events st
         in if (descriptor_events st0 d AND events) \<noteq> events then
              (let flags = epoll_flags_from_events (descriptor_events st0 d OR events);
                   operation = (if descriptor_events st0 d \<noteq> 0 then EPOLL_CTL_MOD else EPOLL_CTL_ADD);
                   st1 = call (Epoll_ctl operation descriptor flags) st0
               in case ctl_errno of
                    Some e \<Rightarrow>
                     (if e = EPERM then
                        Some (Completed (Integer events) (call Yield (call (Queue_push fiber) st1)))
                      else Some (Failed (Sys_fail ''IO_Event_Selector_EPoll_io_wait:epoll_ctl'') st1))
                  | None \<Rightarrow>
                     (let st2 = (epoll_ctl_done operation descriptor st1)\<lparr>descriptor_events :=
                                  (descriptor_events st1)(d := descriptor_events st1 d OR events)\<rparr>
                      in map_option Suspended (list_prepend (Descriptor_list d) waiting st2)))
            else map_option Suspended (list_prepend (Descriptor_list d) waiting st0)))"

text \<open>
  The rest of \<^verbatim>\<open>io_wait\<close>, from the moment the fiber is resumed:
  \<^verbatim>\<open>rb_ensure(io_wait_transfer, ..., io_wait_ensure, ...)\<close>. \<^verbatim>\<open>io_wait_transfer\<close> gets what
  the fiber is resumed with; \<^verbatim>\<open>io_wait_ensure\<close> runs whether \<^verbatim>\<open>io_wait_transfer\<close> returns
  or raises.
\<close>

definition EPoll_io_wait_transfer :: "resumption \<Rightarrow> error + VALUE" where
  "EPoll_io_wait_transfer r =
    (case r of
       Throw e \<Rightarrow> Inl e
     | Resume v \<Rightarrow>
        (if \<not> RTEST v then Inr Qfalse
         else case NUM2INT v of
                Inl e \<Rightarrow> Inl e
              | Inr n \<Rightarrow> Inr (Integer (events_from_epoll_flags n))))"

definition io_wait_ensure :: "addr \<Rightarrow> 'a selector_scheme \<Rightarrow> 'a selector_scheme option" where
  "io_wait_ensure waiting st = list_pop waiting st"

definition IO_Event_Selector_EPoll_io_wait_resumed ::
  "resumption \<Rightarrow> addr \<Rightarrow> epoll \<Rightarrow> ((error + VALUE) \<times> epoll) option"
where
  "IO_Event_Selector_EPoll_io_wait_resumed r waiting st =
    (let v = EPoll_io_wait_transfer r
     in map_option (\<lambda>st'. (v, st')) (io_wait_ensure waiting st))"

subsection \<open>\<^verbatim>\<open>process_wait\<close>\<close>

text \<open>
  \<^verbatim>\<open>IO_Event_Selector_EPoll_process_wait\<close> up to the transfer. \<open>pidfd\<close> is what
  \<^verbatim>\<open>pidfd_open\<close> returns (\<open>-1\<close> on failure).
\<close>

definition IO_Event_Selector_EPoll_process_wait ::
  "int \<Rightarrow> int option \<Rightarrow> fiber \<Rightarrow> int \<Rightarrow> addr \<Rightarrow> epoll \<Rightarrow> epoll progress option"
where
  "IO_Event_Selector_EPoll_process_wait pidfd ctl_errno fiber pid waiting st =
    (let st0 = call (Pidfd_open pid) st; descriptor = pidfd
     in if descriptor = - 1 then
          Some (Failed (Sys_fail ''IO_Event_Selector_EPoll_process_wait:pidfd_open'') st0)
        else
          (case IO_Event_Selector_EPoll_Descriptor_lookup descriptor of
             Inl e \<Rightarrow> Some (Failed e st0)
           | Inr d \<Rightarrow>
              (let st1 = st0\<lparr>descriptor_events := (descriptor_events st0)(d := IO_EVENT_READABLE)\<rparr>;
                   st2 = call (Epoll_ctl EPOLL_CTL_ADD descriptor
                                 (EPOLLIN OR EPOLLERR OR EPOLLHUP OR EPOLLONESHOT)) st1
               in case ctl_errno of
                    Some e \<Rightarrow>
                      Some (Failed (Sys_fail ''IO_Event_Selector_EPoll_process_wait:epoll_ctl'')
                              (call (Close descriptor) st2))
                  | None \<Rightarrow>
                      map_option Suspended
                        (list_prepend (Descriptor_list d) waiting
                           (waiting_init waiting fiber IO_EVENT_READABLE
                              (epoll_ctl_done EPOLL_CTL_ADD descriptor st2))))))"

text \<open>
  The rest of \<^verbatim>\<open>process_wait\<close>: \<^verbatim>\<open>rb_ensure(process_wait_transfer, ..., process_wait_ensure, ...)\<close>.
  \<^verbatim>\<open>process_wait_transfer\<close> drops the value the fiber is resumed with and asks the host for
  the status of the process; \<open>status\<close> is what \<^verbatim>\<open>IO_Event_Selector_process_status_wait\<close>
  (of \<^verbatim>\<open>selector.c\<close>, not among the sources) answers.
\<close>

definition process_wait_transfer ::
  "resumption \<Rightarrow> error + VALUE \<Rightarrow> int \<Rightarrow> 'a selector_scheme \<Rightarrow> (error + VALUE) \<times> 'a selector_scheme"
where
  "process_wait_transfer r status pid st =
    (case r of
       Throw e \<Rightarrow> (Inl e, st)
     | Resume v \<Rightarrow> (status, call (Process_status_wait pid) st))"

definition EPoll_process_wait_ensure :: "int \<Rightarrow> addr \<Rightarrow> epoll \<Rightarrow> epoll option" where
  "EPoll_process_wait_ensure descriptor waiting st =
    list_pop waiting
      ((call (Close descriptor) st)\<lparr>interest := (interest st)(descriptor := False)\<rparr>)"

definition IO_Event_Selector_EPoll_process_wait_resumed ::
  "resumption \<Rightarrow> error + VALUE \<Rightarrow> int \<Rightarrow> int \<Rightarrow> addr \<Rightarrow> epoll \<Rightarrow> ((error + VALUE) \<times> epoll) option"
where
  "IO_Event_Selector_EPoll_process_wait_resumed r status pid descriptor waiting st =
    (case process_wait_transfer r status pid st of
       (v, st1) \<Rightarrow> map_option (\<lambda>st'. (v, st')) (EPoll_process_wait_ensure descriptor waiting st1))"

subsection \<open>Dispatch\<close>

text \<open>
  \<^verbatim>\<open>IO_Event_Selector_EPoll_handle\<close>. \<open>saved\<close> is the address of the local \<^verbatim>\<open>saved\<close>,
  \<open>descriptor\<close> and \<open>flags\<close> are \<^verbatim>\<open>event->data.fd\<close> and \<^verbatim>\<open>event->events\<close>. The result of
  the \<^verbatim>\<open>epoll_ctl\<close> at the end is ignored by the source; afterwards the descriptor is in
  the interest list as before (\<^verbatim>\<open>EPOLL_CTL_MOD\<close>) or not in it (\<^verbatim>\<open>EPOLL_CTL_DEL\<close>).
\<close>

definition EPoll_handle_rearm :: "events \<Rightarrow> events \<Rightarrow> int \<Rightarrow> int \<Rightarrow> epoll \<Rightarrow> epoll" where
  "EPoll_handle_rearm io_event matched_events descriptor d st =
    (if io_event \<noteq> matched_events then
       (let flags = epoll_flags_from_events (descriptor_events st d)
        in if descriptor_events st d \<noteq> 0 then
             epoll_ctl_done EPOLL_CTL_MOD descriptor (call (Epoll_ctl EPOLL_CTL_MOD descriptor flags) st)
           else
             epoll_ctl_done EPOLL_CTL_DEL descriptor (call (Epoll_ctl EPOLL_CTL_DEL descriptor flags) st))
     else st)"

definition IO_Event_Selector_EPoll_handle ::
  "nat \<Rightarrow> (fiber \<Rightarrow> events \<Rightarrow> epoll \<Rightarrow> epoll option) \<Rightarrow> addr \<Rightarrow> int \<Rightarrow> 32 word \<Rightarrow> epoll
    \<Rightarrow> ((error + (fiber \<times> events) list) \<times> epoll) option"
where
  "IO_Event_Selector_EPoll_handle fuel transfer saved descriptor flags st =
    (let io_event = events_from_epoll_flags flags; matched_events = 0
     in case IO_Event_Selector_EPoll_Descriptor_lookup descriptor of
          Inl e \<Rightarrow> Some (Inl e, st)
        | Inr d \<Rightarrow>
           (let list = Descriptor_list d;
                st0 = st\<lparr>links := (links st)(saved := \<lparr>head = None, tail = None\<rparr>)\<rparr>
            in case tail (links st0 list) of
                 None \<Rightarrow> None
               | Some node \<Rightarrow>
                  (case EPoll_handle_loop fuel transfer io_event list saved node matched_events st0 of
                     None \<Rightarrow> None
                   | Some (resumed, matched_events, st1) \<Rightarrow>
                      Some (Inr resumed, EPoll_handle_rearm io_event matched_events descriptor d st1))))"

subsection \<open>Resumed fibers\<close>

fun EPoll_wait_step :: "wait_step \<Rightarrow> epoll \<Rightarrow> epoll option" where
  "EPoll_wait_step (Leave_io_wait r waiting) st =
    map_option snd (IO_Event_Selector_EPoll_io_wait_resumed r waiting st)"
| "EPoll_wait_step (Enter_io_wait ctl_errno fiber descriptor events waiting) st =
    map_option progress_state
      (IO_Event_Selector_EPoll_io_wait ctl_errno fiber descriptor events waiting st)"

fun EPoll_wait_steps :: "wait_step list \<Rightarrow> epoll \<Rightarrow> epoll option" where
  "EPoll_wait_steps [] st = Some st"
| "EPoll_wait_steps (x # xs) st =
    (case EPoll_wait_step x st of None \<Rightarrow> None | Some st' \<Rightarrow> EPoll_wait_steps xs st')"

text \<open>
  \<open>script fiber argument\<close> is what the fiber does when it is resumed with \<open>argument\<close>.
  The host notes the switch in \<open>transfers\<close> before the fiber runs.
\<close>

definition EPoll_fiber_transfer ::
  "(fiber \<Rightarrow> events \<Rightarrow> wait_step list) \<Rightarrow> fiber \<Rightarrow> events \<Rightarrow> epoll \<Rightarrow> epoll option"
where
  "EPoll_fiber_transfer script fiber argument st =
    EPoll_wait_steps (script fiber argument) (st\<lparr>transfers := transfers st @ [(fiber, argument)]\<rparr>)"

section \<open>The kqueue backend\<close>

text \<open>The filters, flags and notes of \<^verbatim>\<open><sys/event.h>\<close> that \<^verbatim>\<open>kqueue.c\<close> uses.\<close>

definition EVFILT_READ :: int where "EVFILT_READ = - 1"
definition EVFILT_WRITE :: int where "EVFILT_WRITE = - 2"
definition EVFILT_PROC :: int where "EVFILT_PROC = - 5"
definition EV_ADD :: "16 word" where "EV_ADD = 0x0001"
definition EV_ENABLE :: "16 word" where "EV_ENABLE = 0x0004"
definition EV_ONESHOT :: "16 word" where "EV_ONESHOT = 0x0010"
definition NOTE_EXIT :: "32 word" where "NOTE_EXIT = 0x80000000"

text \<open>
  \<^verbatim>\<open>struct IO_Event_Selector_KQueue_Descriptor\<close>: the list head of the record with index
  \<open>d\<close> lives at \<open>Descriptor_list d\<close>, its \<^verbatim>\<open>ready\<close> member is \<open>descriptor_ready st d\<close>.
\<close>

record kqueue = selector +
  descriptor_ready :: "int \<Rightarrow> events"

definition KQueue_initial :: kqueue where
  "KQueue_initial =
    \<lparr>links = (\<lambda>a. case a of
                 Descriptor_list d \<Rightarrow> \<lparr>head = Some a, tail = Some a\<rparr>
               | Stack k \<Rightarrow> \<lparr>head = None, tail = None\<rparr>),
     waiting_events = (\<lambda>a. 0), waiting_fiber = (\<lambda>a. 0), calls = [], transfers = [],
     descriptor_ready = (\<lambda>d. 0)\<rparr>"

definition IO_Event_Selector_KQueue_Descriptor_lookup :: "int \<Rightarrow> error + int" where
  "IO_Event_Selector_KQueue_Descriptor_lookup descriptor =
    (case IO_Event_Array_lookup descriptor of
       None \<Rightarrow> Inl (Sys_fail ''IO_Event_Selector_KQueue_Descriptor_lookup:IO_Event_Array_lookup'')
     | Some d \<Rightarrow> Inr d)"

text \<open>
  \<^verbatim>\<open>IO_Event_Selector_KQueue_arm\<close>: one change per requested event, registered with one
  \<^verbatim>\<open>kevent\<close> call, then the waiter is prepended. \<open>kevent_errno\<close> is the answer of
  \<^verbatim>\<open>kevent\<close>. The function returns the number of changes.
\<close>

definition IO_Event_Selector_KQueue_arm ::
  "int option \<Rightarrow> int \<Rightarrow> int \<Rightarrow> addr \<Rightarrow> kqueue \<Rightarrow> ((error + int) \<times> kqueue) option"
where
  "IO_Event_Selector_KQueue_arm kevent_errno ident d waiting st =
    (let events = waiting_events st waiting;
         kevents =
           (if events AND IO_EVENT_READABLE \<noteq> 0 then
              [\<lparr>ev_ident = ident, ev_filter = EVFILT_READ,
                ev_flags = EV_ADD OR EV_ENABLE OR EV_ONESHOT, ev_fflags = 0, ev_udata = Some d\<rparr>]
            else [])
           @ (if events AND IO_EVENT_WRITABLE \<noteq> 0 then
              [\<lparr>ev_ident = ident, ev_filter = EVFILT_WRITE,
                ev_flags = EV_ADD OR EV_ENABLE OR EV_ONESHOT, ev_fflags = 0, ev_udata = Some d\<rparr>]
            else [])
           @ (if events AND IO_EVENT_EXIT \<noteq> 0 then
              [\<lparr>ev_ident = ident, ev_filter = EVFILT_PROC,
                ev_flags = EV_ADD OR EV_ENABLE OR EV_ONESHOT, ev_fflags = NOTE_EXIT, ev_udata = Some d\<rparr>]
            else []);
         count = int (length kevents);
         st1 = call (Kevent kevents) st
     in case kevent_errno of
          Some e \<Rightarrow> Some (Inl (Sys_fail ''IO_Event_Selector_KQueue_arm:kevent''), st1)
        | None \<Rightarrow>
           map_option (\<lambda>st'. (Inr count, st')) (list_prepend (Descriptor_list d) waiting st1))"

definition events_from_kevent_filter :: "int \<Rightarrow> events" where
  "events_from_kevent_filter f =
    (if f = EVFILT_READ then IO_EVENT_READABLE
     else if f = EVFILT_WRITE then IO_EVENT_WRITABLE
     else if f = EVFILT_PROC then IO_EVENT_EXIT
     else 0)"

subsection \<open>\<^verbatim>\<open>io_wait\<close> and \<^verbatim>\<open>process_wait\<close>\<close>

text \<open>
  \<^verbatim>\<open>IO_Event_Selector_KQueue_io_wait\<close> up to the transfer. The source does not check the
  result of \<^verbatim>\<open>IO_Event_Array_lookup\<close>; with \<^verbatim>\<open>NULL\<close> the prepend in the arm function follows
  a null pointer.
\<close>

definition IO_Event_Selector_KQueue_io_wait ::
  "int option \<Rightarrow> fiber \<Rightarrow> int \<Rightarrow> events \<Rightarrow> addr \<Rightarrow> kqueue \<Rightarrow> kqueue progress option"
where
  "IO_Event_Selector_KQueue_io_wait kevent_errno fiber descriptor events waiting st =
    (case IO_Event_Array_lookup descriptor of
       None \<Rightarrow> None
     | Some d \<Rightarrow>
        (case IO_Event_Selector_KQueue_arm kevent_errno descriptor d waiting
                (waiting_init waiting fiber events st) of
           None \<Rightarrow> None
         | Some (Inl e, st') \<Rightarrow> Some (Failed e st')
         | Some (Inr count, st') \<Rightarrow> Some (Suspended st')))"

definition KQueue_io_wait_transfer :: "resumption \<Rightarrow> error + VALUE" where
  "KQueue_io_wait_transfer r =
    (case r of
       Throw e \<Rightarrow> Inl e
     | Resume v \<Rightarrow> (if \<not> RTEST v then Inr Qfalse else Inr v))"

definition IO_Event_Selector_KQueue_io_wait_resumed ::
  "resumption \<Rightarrow> addr \<Rightarrow> kqueue \<Rightarrow> ((error + VALUE) \<times> kqueue) option"
where
  "IO_Event_Selector_KQueue_io_wait_resumed r waiting st =
    (let v = KQueue_io_wait_transfer r
     in map_option (\<lambda>st'. (v, st')) (io_wait_ensure waiting st))"

definition IO_Event_Selector_KQueue_process_wait ::
  "int option \<Rightarrow> fiber \<Rightarrow> int \<Rightarrow> addr \<Rightarrow> kqueue \<Rightarrow> kqueue progress option"
where
  "IO_Event_Selector_KQueue_process_wait kevent_errno fiber pid waiting st =
    (case IO_Event_Selector_KQueue_Descriptor_lookup pid of
       Inl e \<Rightarrow> Some (Failed e st)
     | Inr d \<Rightarrow>
        (case IO_Event_Selector_KQueue_arm kevent_errno pid d waiting
                (waiting_init waiting fiber IO_EVENT_EXIT st) of
           None \<Rightarrow> None
         | Some (Inl e, st') \<Rightarrow> Some (Failed e st')
         | Some (Inr count, st') \<Rightarrow> Some (Suspended st')))"

definition KQueue_process_wait_ensure :: "addr \<Rightarrow> kqueue \<Rightarrow> kqueue option" where
  "KQueue_process_wait_ensure waiting st = list_pop waiting st"

definition IO_Event_Selector_KQueue_process_wait_resumed ::
  "resumption \<Rightarrow> error + VALUE \<Rightarrow> int \<Rightarrow> addr \<Rightarrow> kqueue \<Rightarrow> ((error + VALUE) \<times> kqueue) option"
where
  "IO_Event_Selector_KQueue_process_wait_resumed r status pid waiting st =
    (case process_wait_transfer r status pid st of
       (v, st1) \<Rightarrow> map_option (\<lambda>st'. (v, st')) (KQueue_process_wait_ensure waiting st1))"

subsection \<open>Dispatch\<close>

text \<open>
  \<^verbatim>\<open>IO_Event_Selector_KQueue_handle\<close>; \<open>d\<close> is the record that \<^verbatim>\<open>kqueue_descriptor\<close> points
  at.
\<close>

definition IO_Event_Selector_KQueue_handle ::
  "nat \<Rightarrow> (fiber \<Rightarrow> events \<Rightarrow> kqueue \<Rightarrow> kqueue option) \<Rightarrow> addr \<Rightarrow> int \<Rightarrow> int \<Rightarrow> kqueue
    \<Rightarrow> ((fiber \<times> events) list \<times> kqueue) option"
where
  "IO_Event_Selector_KQueue_handle fuel transfer saved ident d st =
    (let io_event = descriptor_ready st d
     in if io_event \<noteq> 0 then
          (let st0 = st\<lparr>descriptor_ready := (descriptor_ready st)(d := 0)\<rparr>;
               list = Descriptor_list d;
               st1 = st0\<lparr>links := (links st0)(saved := \<lparr>head = None, tail = None\<rparr>)\<rparr>
           in case tail (links st1 list) of
                None \<Rightarrow> None
              | Some node \<Rightarrow> KQueue_handle_loop fuel transfer io_event list saved node st1)
        else Some ([], st))"

text \<open>
  The two \<^verbatim>\<open>for\<close> loops at the end of \<^verbatim>\<open>IO_Event_Selector_KQueue_select\<close>, over the events
  the kernel returned: the first adds the event of each filter to the \<^verbatim>\<open>ready\<close> member of
  the record its \<^verbatim>\<open>udata\<close> points at, the second calls the handler for each.
\<close>

fun KQueue_select_ready :: "kevent list \<Rightarrow> kqueue \<Rightarrow> kqueue" where
  "KQueue_select_ready [] st = st"
| "KQueue_select_ready (e # es) st =
    (case ev_udata e of
       Some d \<Rightarrow>
        KQueue_select_ready es
          (st\<lparr>descriptor_ready :=
               (descriptor_ready st)(d := descriptor_ready st d OR events_from_kevent_filter (ev_filter e))\<rparr>)
     | None \<Rightarrow> KQueue_select_ready es st)"

fun KQueue_select_handle ::
  "nat \<Rightarrow> (fiber \<Rightarrow> events \<Rightarrow> kqueue \<Rightarrow> kqueue option) \<Rightarrow> addr \<Rightarrow> kevent list \<Rightarrow> kqueue
    \<Rightarrow> ((fiber \<times> events) list \<times> kqueue) option"
where
  "KQueue_select_handle fuel transfer saved [] st = Some ([], st)"
| "KQueue_select_handle fuel transfer saved (e # es) st =
    (case ev_udata e of
       Some d \<Rightarrow>
        (case IO_Event_Selector_KQueue_handle fuel transfer saved (ev_ident e) d st of
           None \<Rightarrow> None
         | Some (resumed, st') \<Rightarrow>
            map_option (\<lambda>(resumed', s). (resumed @ resumed', s))
              (KQueue_select_handle fuel transfer saved es st'))
     | None \<Rightarrow> KQueue_select_handle fuel transfer saved es st)"

subsection \<open>Resumed fibers\<close>

fun KQueue_wait_step :: "wait_step \<Rightarrow> kqueue \<Rightarrow> kqueue option" where
  "KQueue_wait_step (Leave_io_wait r waiting) st =
    map_option snd (IO_Event_Selector_KQueue_io_wait_resumed r waiting st)"
| "KQueue_wait_step (Enter_io_wait kevent_errno fiber descriptor events waiting) st =
    map_option progress_state
      (IO_Event_Selector_KQueue_io_wait kevent_errno fiber descriptor events waiting st)"

fun KQueue_wait_steps :: "wait_step list \<Rightarrow> kqueue \<Rightarrow> kqueue option" where
  "KQueue_wait_steps [] st = Some st"
| "KQueue_wait_steps (x # xs) st =
    (case KQueue_wait_step x st of None \<Rightarrow> None | Some st' \<Rightarrow> KQueue_wait_steps xs st')"

definition KQueue_fiber_transfer ::
  "(fiber \<Rightarrow> events \<Rightarrow> wait_step list) \<Rightarrow> fiber \<Rightarrow> events \<Rightarrow> kqueue \<Rightarrow> kqueue option"
where
  "KQueue_fiber_transfer script fiber argument st =
    KQueue_wait_steps (script fiber argument) (st\<lparr>transfers := transfers st @ [(fiber, argument)]\<rparr>)"


section \<open>Fibers that cancel other fibers\<close>

text \<open>
  Modelled from the spec: the host runtime behind \<^verbatim>\<open>IO_Event_Selector_fiber_transfer\<close>,
  which is not among the sources. A resumed fiber may, before it suspends again, make the
  host raise an exception into other fibers. One of them that is parked in \<^verbatim>\<open>io_wait\<close>
  leaves it through \<^verbatim>\<open>io_wait_ensure\<close>, which unlinks its waiter; one that is not parked
  has no waiter to unlink. \<open>cancels fiber\<close> are the waiters of the fibers that \<open>fiber\<close>
  cancels when it is resumed.
\<close>

fun cancel_waiters :: "addr list \<Rightarrow> 'a selector_scheme \<Rightarrow> 'a selector_scheme option" where
  "cancel_waiters [] st = Some st"
| "cancel_waiters (m # ms) st =
    (if tail (links st m) = None then cancel_waiters ms st
     else case io_wait_ensure m st of None \<Rightarrow> None | Some st' \<Rightarrow> cancel_waiters ms st')"

definition cancelling_transfer ::
  "(fiber \<Rightarrow> addr list) \<Rightarrow> (fiber \<Rightarrow> events \<Rightarrow> 'a selector_scheme \<Rightarrow> 'a selector_scheme option)
    \<Rightarrow> fiber \<Rightarrow> events \<Rightarrow> 'a selector_scheme \<Rightarrow> 'a selector_scheme option"
where
  "cancelling_transfer cancels transfer fiber argument st =
    (case transfer fiber argument st of
       None \<Rightarrow> None
     | Some st' \<Rightarrow> cancel_waiters (cancels fiber) st')"

section \<open>\<^verbatim>\<open>select\<close>\<close>

text \<open>
  The \<^verbatim>\<open>duration\<close> argument: \<^verbatim>\<open>nil\<close>, a Fixnum, a Float, or something else. The Float is
  given by the two numbers the source computes from it in floating point:
  \<^verbatim>\<open>time_t seconds = value\<close> and \<^verbatim>\<open>(value - seconds) * 1000000000L\<close>; both are 0 for the
  Float 0.0.
\<close>

record timespec =
  tv_sec :: int
  tv_nsec :: int

datatype duration =
    Duration_nil
  | Duration_fixnum int
  | Duration_float int int
  | Duration_other

definition make_timeout :: "duration \<Rightarrow> error + timespec option" where
  "make_timeout duration =
    (case duration of
       Duration_nil \<Rightarrow> Inr None
     | Duration_fixnum n \<Rightarrow> Inr (Some \<lparr>tv_sec = n, tv_nsec = 0\<rparr>)
     | Duration_float seconds nanoseconds \<Rightarrow> Inr (Some \<lparr>tv_sec = seconds, tv_nsec = nanoseconds\<rparr>)
     | Duration_other \<Rightarrow> Inl (Runtime_error ''unable to convert timeout''))"

definition timeout_nonblocking :: "timespec option \<Rightarrow> bool" where
  "timeout_nonblocking timespec =
    (case timespec of None \<Rightarrow> False | Some t \<Rightarrow> tv_sec t = 0 \<and> tv_nsec t = 0)"

text \<open>
  \<^verbatim>\<open>make_timeout_ms\<close> of \<^verbatim>\<open>epoll.c\<close>. The members of \<^verbatim>\<open>struct timespec\<close> are of type
  \<^verbatim>\<open>time_t\<close> and \<^verbatim>\<open>long\<close>, 64 bits wide, and the function returns an \<^verbatim>\<open>int\<close> of 32 bits:
  the product and the sum are taken in 64 bits and the result is cut down to 32 bits, both
  read as signed numbers in two's complement, so that a large timeout wraps around and can
  come out negative, or as \<open>-1\<close>. C's division truncates towards zero. A Fixnum fits in 63
  bits, so \<^verbatim>\<open>NUM2TIMET\<close> in \<^verbatim>\<open>make_timeout\<close> neither raises nor wraps.
\<close>

definition c_long :: "int \<Rightarrow> int" where
  "c_long n = sint (word_of_int n :: 64 word)"

definition c_int :: "int \<Rightarrow> int" where
  "c_int n = sint (word_of_int n :: 32 word)"

definition c_div :: "int \<Rightarrow> int \<Rightarrow> int" where
  "c_div a b = (if (a < 0) = (b < 0) then \<bar>a\<bar> div \<bar>b\<bar> else - (\<bar>a\<bar> div \<bar>b\<bar>))"

definition make_timeout_ms :: "timespec option \<Rightarrow> int" where
  "make_timeout_ms timeout =
    (case timeout of
       None \<Rightarrow> - 1
     | Some t \<Rightarrow>
        (if timeout_nonblocking timeout then 0
         else c_int (c_long (c_long (tv_sec t * 1000) + c_div (tv_nsec t) 1000000))))"

definition ENOSYS :: int where "ENOSYS = 38"

text \<open>
  The kernel waits of a \<^verbatim>\<open>select\<close>, in order. Each records whether it is made through
  \<^verbatim>\<open>rb_thread_call_without_gvl\<close> (between \<^verbatim>\<open>selector->blocked = 1\<close> and
  \<^verbatim>\<open>selector->blocked = 0\<close>) or directly, and its timeout: a null \<^verbatim>\<open>struct timespec *\<close>
  (\<open>None\<close>) and the millisecond timeout \<open>-1\<close> wait without limit.
\<close>

datatype gvl = With_gvl | Without_gvl

datatype wait_call =
    Epoll_pwait2 gvl "timespec option"
  | Epoll_wait gvl int
  | Kevent_wait gvl "timespec option"



text \<open>
  What the kernel answers to the waits of one \<^verbatim>\<open>select_internal\<close>: the return value and
  \<^verbatim>\<open>errno\<close> of \<^verbatim>\<open>epoll_pwait2\<close> and of \<^verbatim>\<open>epoll_wait\<close> (or of \<^verbatim>\<open>kevent\<close>).
\<close>

record epoll_answer =
  pwait2 :: "int \<times> int"
  wait :: "int \<times> int"

definition enosys_error :: "int \<times> int \<Rightarrow> bool" where
  "enosys_error r = (case r of (res, e) \<Rightarrow> if res = - 1 then e = ENOSYS else False)"

text \<open>
  \<^verbatim>\<open>select_internal\<close> of \<^verbatim>\<open>epoll.c\<close>; \<open>have_pwait2\<close> is \<^verbatim>\<open>HAVE_EPOLL_PWAIT2\<close>. It gives the
  waits made and the final \<^verbatim>\<open>arguments->count\<close> with the \<^verbatim>\<open>errno\<close> left behind.
\<close>

definition EPoll_select_internal ::
  "bool \<Rightarrow> gvl \<Rightarrow> epoll_answer \<Rightarrow> timespec option \<Rightarrow> wait_call list \<times> int \<times> int"
where
  "EPoll_select_internal have_pwait2 g k timeout =
    (if have_pwait2 \<and> \<not> enosys_error (pwait2 k) then ([Epoll_pwait2 g timeout], pwait2 k)
     else if have_pwait2 then
       ([Epoll_pwait2 g timeout, Epoll_wait g (make_timeout_ms timeout)], wait k)
     else ([Epoll_wait g (make_timeout_ms timeout)], wait k))"

text \<open>
  The check after the wait, the same in \<^verbatim>\<open>select_internal_with_gvl\<close> and
  \<^verbatim>\<open>select_internal_without_gvl\<close> of both files: \<open>-1\<close> with \<^verbatim>\<open>EINTR\<close> counts as no event,
  \<open>-1\<close> with another \<^verbatim>\<open>errno\<close> raises.
\<close>

definition select_count :: "string \<Rightarrow> int \<times> int \<Rightarrow> error + int" where
  "select_count message r =
    (case r of (count, e) \<Rightarrow>
       if count = - 1 then (if e \<noteq> EINTR then Inl (Sys_fail message) else Inr 0)
       else Inr count)"

definition EPoll_select_internal_with_gvl ::
  "bool \<Rightarrow> epoll_answer \<Rightarrow> timespec option \<Rightarrow> wait_call list \<times> (error + int)"
where
  "EPoll_select_internal_with_gvl have_pwait2 k timeout =
    (case EPoll_select_internal have_pwait2 With_gvl k timeout of
       (ws, r) \<Rightarrow> (ws, select_count ''select_internal_with_gvl:epoll_wait'' r))"

definition EPoll_select_internal_without_gvl ::
  "bool \<Rightarrow> epoll_answer \<Rightarrow> timespec option \<Rightarrow> wait_call list \<times> (error + int)"
where
  "EPoll_select_internal_without_gvl have_pwait2 k timeout =
    (case EPoll_select_internal have_pwait2 Without_gvl k timeout of
       (ws, r) \<Rightarrow> (ws, select_count ''select_internal_without_gvl:epoll_wait'' r))"

text \<open>
  \<^verbatim>\<open>IO_Event_Selector_EPoll_select\<close> from after the flush of the ready queue up to the
  dispatch loop. \<open>ready\<close> is what \<^verbatim>\<open>IO_Event_Selector_queue_flush\<close> returned, \<open>k1\<close> and
  \<open>k2\<close> are the answers of the kernel to the first and to the second wait,
  \<open>backend_ready\<close> is \<^verbatim>\<open>selector->backend.ready\<close> after the first wait. The result is the
  kernel waits made, whether the second wait was made, and \<^verbatim>\<open>arguments.count\<close>.
\<close>

definition EPoll_select_wait ::
  "bool \<Rightarrow> int \<Rightarrow> epoll_answer \<Rightarrow> bool \<Rightarrow> epoll_answer \<Rightarrow> duration
    \<Rightarrow> wait_call list \<times> (error + bool \<times> int)"
where
  "EPoll_select_wait have_pwait2 ready k1 backend_ready k2 duration =
    (case EPoll_select_internal_with_gvl have_pwait2 k1 (Some \<lparr>tv_sec = 0, tv_nsec = 0\<rparr>) of
       (ws1, Inl e) \<Rightarrow> (ws1, Inl e)
     | (ws1, Inr count) \<Rightarrow>
        (if ready = 0 \<and> count = 0 \<and> \<not> backend_ready then
           (case make_timeout duration of
              Inl e \<Rightarrow> (ws1, Inl e)
            | Inr timeout \<Rightarrow>
               (if \<not> timeout_nonblocking timeout then
                  (case EPoll_select_internal_without_gvl have_pwait2 k2 timeout of
                     (ws2, Inl e) \<Rightarrow> (ws1 @ ws2, Inl e)
                   | (ws2, Inr count') \<Rightarrow> (ws1 @ ws2, Inr (True, count')))
                else (ws1, Inr (False, count))))
         else (ws1, Inr (False, count))))"

text \<open>The same part of \<^verbatim>\<open>IO_Event_Selector_KQueue_select\<close>, with \<^verbatim>\<open>kevent\<close> as the wait.\<close>

definition KQueue_select_internal_with_gvl ::
  "int \<times> int \<Rightarrow> timespec option \<Rightarrow> wait_call list \<times> (error + int)"
where
  "KQueue_select_internal_with_gvl k timeout =
    ([Kevent_wait With_gvl timeout], select_count ''select_internal_with_gvl:kevent'' k)"

definition KQueue_select_internal_without_gvl ::
  "int \<times> int \<Rightarrow> timespec option \<Rightarrow> wait_call list \<times> (error + int)"
where
  "KQueue_select_internal_without_gvl k timeout =
    ([Kevent_wait Without_gvl timeout], select_count ''select_internal_without_gvl:kevent'' k)"

definition KQueue_select_wait ::
  "int \<Rightarrow> int \<times> int \<Rightarrow> bool \<Rightarrow> int \<times> int \<Rightarrow> duration
    \<Rightarrow> wait_call list \<times> (error + bool \<times> int)"
where
  "KQueue_select_wait ready k1 backend_ready k2 duration =
    (case KQueue_select_internal_with_gvl k1 (Some \<lparr>tv_sec = 0, tv_nsec = 0\<rparr>) of
       (ws1, Inl e) \<Rightarrow> (ws1, Inl e)
     | (ws1, Inr count) \<Rightarrow>
        (if ready = 0 \<and> count = 0 \<and> \<not> backend_ready then
           (case make_timeout duration of
              Inl e \<Rightarrow> (ws1, Inl e)
            | Inr timeout \<Rightarrow>
               (if \<not> timeout_nonblocking timeout then
                  (case KQueue_select_internal_without_gvl k2 timeout of
                     (ws2, Inl e) \<Rightarrow> (ws1 @ ws2, Inl e)
                   | (ws2, Inr count') \<Rightarrow> (ws1 @ ws2, Inr (True, count')))
                else (ws1, Inr (False, count))))
         else (ws1, Inr (False, count))))"

text \<open>
  The whole of \<^verbatim>\<open>IO_Event_Selector_KQueue_select\<close>. \<open>flush\<close> is
  \<^verbatim>\<open>IO_Event_Selector_queue_flush\<close>, which runs the fibers of the ready queue and returns
  how many; \<open>evs1\<close> and \<open>evs2\<close> are the event arrays the kernel fills in the first and in
  the second wait. The result is the kernel waits, the transfers made by the handlers, and
  the value returned.
\<close>

definition IO_Event_Selector_KQueue_select ::
  "nat \<Rightarrow> (fiber \<Rightarrow> events \<Rightarrow> kqueue \<Rightarrow> kqueue option) \<Rightarrow> addr
    \<Rightarrow> (kqueue \<Rightarrow> (int \<times> kqueue) option)
    \<Rightarrow> int \<times> int \<Rightarrow> kevent list \<Rightarrow> bool \<Rightarrow> int \<times> int \<Rightarrow> kevent list \<Rightarrow> duration \<Rightarrow> kqueue
    \<Rightarrow> (wait_call list \<times> (error + (fiber \<times> events) list \<times> int) \<times> kqueue) option"
where
  "IO_Event_Selector_KQueue_select fuel transfer saved flush k1 evs1 backend_ready k2 evs2 duration st =
    (case flush st of
       None \<Rightarrow> None
     | Some (ready, st1) \<Rightarrow>
        (case KQueue_select_wait ready k1 backend_ready k2 duration of
           (ws, Inl e) \<Rightarrow> Some (ws, Inl e, st1)
         | (ws, Inr (second, count)) \<Rightarrow>
            (let evs = take (nat count) (if second then evs2 else evs1);
                 st2 = KQueue_select_ready evs st1
             in case KQueue_select_handle fuel transfer saved evs st2 of
                  None \<Rightarrow> None
                | Some (resumed, st3) \<Rightarrow> Some (ws, Inr (resumed, count), st3))))"

text \<open>
  The whole of \<^verbatim>\<open>IO_Event_Selector_EPoll_select\<close>; an event is a pair of \<^verbatim>\<open>data.fd\<close> and
  \<^verbatim>\<open>events\<close>, and one with a negative \<^verbatim>\<open>data.fd\<close> is the interrupt.
\<close>

fun EPoll_select_handle ::
  "nat \<Rightarrow> (fiber \<Rightarrow> events \<Rightarrow> epoll \<Rightarrow> epoll option) \<Rightarrow> addr \<Rightarrow> (int \<times> 32 word) list \<Rightarrow> epoll
    \<Rightarrow> ((error + (fiber \<times> events) list) \<times> epoll) option"
where
  "EPoll_select_handle fuel transfer saved [] st = Some (Inr [], st)"
| "EPoll_select_handle fuel transfer saved ((fd, flags) # es) st =
    (if fd \<ge> 0 then
       (case IO_Event_Selector_EPoll_handle fuel transfer saved fd flags st of
          None \<Rightarrow> None
        | Some (Inl e, st') \<Rightarrow> Some (Inl e, st')
        | Some (Inr resumed, st') \<Rightarrow>
           map_option (\<lambda>(r, s). (map_sum id (\<lambda>resumed'. resumed @ resumed') r, s))
             (EPoll_select_handle fuel transfer saved es st'))
     else EPoll_select_handle fuel transfer saved es (call Interrupt_clear st))"

definition IO_Event_Selector_EPoll_select ::
  "nat \<Rightarrow> (fiber \<Rightarrow> events \<Rightarrow> epoll \<Rightarrow> epoll option) \<Rightarrow> addr
    \<Rightarrow> (epoll \<Rightarrow> (int \<times> epoll) option) \<Rightarrow> bool
    \<Rightarrow> epoll_answer \<Rightarrow> (int \<times> 32 word) list \<Rightarrow> bool \<Rightarrow> epoll_answer \<Rightarrow> (int \<times> 32 word) list
    \<Rightarrow> duration \<Rightarrow> epoll
    \<Rightarrow> (wait_call list \<times> (error + (fiber \<times> events) list \<times> int) \<times> epoll) option"
where
  "IO_Event_Selector_EPoll_select fuel transfer saved flush have_pwait2 k1 evs1 backend_ready k2 evs2
      duration st =
    (case flush st of
       None \<Rightarrow> None
     | Some (ready, st1) \<Rightarrow>
        (case EPoll_select_wait have_pwait2 ready k1 backend_ready k2 duration of
           (ws, Inl e) \<Rightarrow> Some (ws, Inl e, st1)
         | (ws, Inr (second, count)) \<Rightarrow>
            (let evs = take (nat count) (if second then evs2 else evs1)
             in case EPoll_select_handle fuel transfer saved evs st1 of
                  None \<Rightarrow> None
                | Some (Inl e, st2) \<Rightarrow> Some (ws, Inl e, st2)
                | Some (Inr resumed, st2) \<Rightarrow> Some (ws, Inr (resumed, count), st2))))"

section \<open>Buffered I/O loops\<close>

text \<open>
  The loops of \<^verbatim>\<open>io_read_loop\<close> and \<^verbatim>\<open>io_write_loop\<close> in \<^verbatim>\<open>epoll.c\<close> and
  \<^verbatim>\<open>kqueue.c\<close>. \<^verbatim>\<open>size_t\<close> and \<^verbatim>\<open>ssize_t\<close> are 64-bit words; \<^verbatim>\<open>result > 0\<close> is the
  signed comparison, \<^verbatim>\<open>(size_t)result >= length\<close> the unsigned one.

  The kernel is a script: the list of what the successive \<^verbatim>\<open>read\<close>/\<^verbatim>\<open>write\<close> calls return
  (return value and \<^verbatim>\<open>errno\<close>), together with whether the \<^verbatim>\<open>io_wait\<close> made in that
  iteration (if one is made) raises. A run that needs more system calls than the script
  holds has no result (\<open>None\<close>).
\<close>

type_synonym size_t = "64 word"
type_synonym ssize_t = "64 word"

record attempt =
  returned :: ssize_t
  errno :: int
  wait_raises :: bool

datatype io_call =
    Read size_t size_t
  | Write size_t size_t
  | Io_wait events

datatype io_outcome =
    Io_result ssize_t int
  | Io_raise

text \<open>
  \<^verbatim>\<open>io_read_loop\<close> of \<^verbatim>\<open>epoll.c\<close>. \<open>try_again\<close> is \<^verbatim>\<open>IO_Event_try_again\<close> (declared in
  \<^verbatim>\<open>selector.h\<close>), taken as a parameter. The calls made are returned in order.
\<close>

fun epoll_io_read_loop ::
  "(int \<Rightarrow> bool) \<Rightarrow> size_t \<Rightarrow> size_t \<Rightarrow> size_t \<Rightarrow> attempt list \<Rightarrow> (io_call list \<times> io_outcome) option"
where
  "epoll_io_read_loop try_again bsize len offset [] = None"
| "epoll_io_read_loop try_again bsize len offset (a # script) =
    (let maximum_size = bsize - offset;
         call = Read offset maximum_size
     in if 0 <s returned a then
          (let offset' = offset + returned a
           in if returned a \<ge> len then Some ([call], Io_result offset' 0)
              else map_option (\<lambda>(cs, r). (call # cs, r))
                     (epoll_io_read_loop try_again bsize (len - returned a) offset' script))
        else if returned a = 0 then Some ([call], Io_result offset 0)
        else if len > 0 \<and> try_again (errno a) then
          (if wait_raises a then Some ([call, Io_wait IO_EVENT_READABLE], Io_raise)
           else map_option (\<lambda>(cs, r). (call # Io_wait IO_EVENT_READABLE # cs, r))
                  (epoll_io_read_loop try_again bsize len offset script))
        else Some ([call], Io_result (- 1) (errno a)))"

text \<open>\<^verbatim>\<open>io_write_loop\<close> of \<^verbatim>\<open>epoll.c\<close>, after the check \<^verbatim>\<open>length > size\<close>.\<close>

fun epoll_io_write_while ::
  "(int \<Rightarrow> bool) \<Rightarrow> size_t \<Rightarrow> size_t \<Rightarrow> size_t \<Rightarrow> attempt list \<Rightarrow> (io_call list \<times> io_outcome) option"
where
  "epoll_io_write_while try_again bsize len offset [] = None"
| "epoll_io_write_while try_again bsize len offset (a # script) =
    (let maximum_size = bsize - offset;
         call = Write offset maximum_size
     in if 0 <s returned a then
          (let offset' = offset + returned a
           in if returned a \<ge> len then Some ([call], Io_result offset' 0)
              else map_option (\<lambda>(cs, r). (call # cs, r))
                     (epoll_io_write_while try_again bsize (len - returned a) offset' script))
        else if returned a = 0 then Some ([call], Io_result offset 0)
        else if len > 0 \<and> try_again (errno a) then
          (if wait_raises a then Some ([call, Io_wait IO_EVENT_WRITABLE], Io_raise)
           else map_option (\<lambda>(cs, r). (call # Io_wait IO_EVENT_WRITABLE # cs, r))
                  (epoll_io_write_while try_again bsize len offset script))
        else Some ([call], Io_result (- 1) (errno a)))"

definition epoll_io_write_loop ::
  "(int \<Rightarrow> bool) \<Rightarrow> size_t \<Rightarrow> size_t \<Rightarrow> size_t \<Rightarrow> attempt list \<Rightarrow> (io_call list \<times> io_outcome) option"
where
  "epoll_io_write_loop try_again bsize len offset script =
    (if len > bsize then Some ([], Io_raise)
     else epoll_io_write_while try_again bsize len offset script)"

text \<open>
  \<^verbatim>\<open>io_read_loop\<close> of \<^verbatim>\<open>kqueue.c\<close>: the loop runs while \<^verbatim>\<open>maximum_size\<close> is not zero, and
  a separate counter \<^verbatim>\<open>total\<close> is returned.
\<close>

fun kqueue_io_read_while ::
  "(int \<Rightarrow> bool) \<Rightarrow> size_t \<Rightarrow> size_t \<Rightarrow> size_t \<Rightarrow> size_t \<Rightarrow> attempt list \<Rightarrow> (io_call list \<times> io_outcome) option"
where
  "kqueue_io_read_while try_again bsize len offset ntotal script =
    (let maximum_size = bsize - offset
     in if maximum_size = 0 then Some ([], Io_result ntotal 0)
        else case script of
          [] \<Rightarrow> None
        | a # script' \<Rightarrow>
           (let call = Read offset maximum_size
            in if 0 <s returned a then
                 (let ntotal' = ntotal + returned a; offset' = offset + returned a
                  in if returned a \<ge> len then Some ([call], Io_result ntotal' 0)
                     else map_option (\<lambda>(cs, r). (call # cs, r))
                            (kqueue_io_read_while try_again bsize (len - returned a) offset' ntotal' script'))
               else if returned a = 0 then Some ([call], Io_result ntotal 0)
               else if len > 0 \<and> try_again (errno a) then
                 (if wait_raises a then Some ([call, Io_wait IO_EVENT_READABLE], Io_raise)
                  else map_option (\<lambda>(cs, r). (call # Io_wait IO_EVENT_READABLE # cs, r))
                         (kqueue_io_read_while try_again bsize len offset ntotal script'))
               else Some ([call], Io_result (- 1) (errno a))))"

definition kqueue_io_read_loop ::
  "(int \<Rightarrow> bool) \<Rightarrow> size_t \<Rightarrow> size_t \<Rightarrow> size_t \<Rightarrow> attempt list \<Rightarrow> (io_call list \<times> io_outcome) option"
where
  "kqueue_io_read_loop try_again bsize len offset script =
    kqueue_io_read_while try_again bsize len offset 0 script"

text \<open>
  \<^verbatim>\<open>io_write_loop\<close> of \<^verbatim>\<open>kqueue.c\<close>. The wait in the retry branch is made with
  \<^verbatim>\<open>IO_EVENT_READABLE\<close>, as the source has it.
\<close>

fun kqueue_io_write_while ::
  "(int \<Rightarrow> bool) \<Rightarrow> size_t \<Rightarrow> size_t \<Rightarrow> size_t \<Rightarrow> size_t \<Rightarrow> attempt list \<Rightarrow> (io_call list \<times> io_outcome) option"
where
  "kqueue_io_write_while try_again bsize len offset ntotal script =
    (let maximum_size = bsize - offset
     in if maximum_size = 0 then Some ([], Io_result ntotal 0)
        else case script of
          [] \<Rightarrow> None
        | a # script' \<Rightarrow>
           (let call = Write offset maximum_size
            in if 0 <s returned a then
                 (let ntotal' = ntotal + returned a; offset' = offset + returned a
                  in if returned a \<ge> len then Some ([call], Io_result ntotal' 0)
                     else map_option (\<lambda>(cs, r). (call # cs, r))
                            (kqueue_io_write_while try_again bsize (len - returned a) offset' ntotal' script'))
               else if returned a = 0 then Some ([call], Io_result ntotal 0)
               else if len > 0 \<and> try_again (errno a) then
                 (if wait_raises a then Some ([call, Io_wait IO_EVENT_READABLE], Io_raise)
                  else map_option (\<lambda>(cs, r). (call # Io_wait IO_EVENT_READABLE # cs, r))
                         (kqueue_io_write_while try_again bsize len offset ntotal script'))
               else Some ([call], Io_result (- 1) (errno a))))"

definition kqueue_io_write_loop ::
  "(int \<Rightarrow> bool) \<Rightarrow> size_t \<Rightarrow> size_t \<Rightarrow> size_t \<Rightarrow> attempt list \<Rightarrow> (io_call list \<times> io_outcome) option"
where
  "kqueue_io_write_loop try_again bsize len offset script =
    (if len > bsize then Some ([], Io_raise)
     else kqueue_io_write_while try_again bsize len offset 0 script)"

text \<open>
  The loop in the words of the spec, for comparison: a successful call advances the offset and
  decrements the length; when the length is used up or the call returned zero, the result is
  the cumulative byte count with error 0; a retry-class errno with a positive length waits
  and re-enters the loop; any other error gives \<open>(-1, errno)\<close>. \<open>count\<close> is the cumulative
  byte count so far, 0 at the start.
\<close>

fun spec_io_loop :: "(int \<Rightarrow> bool) \<Rightarrow> size_t \<Rightarrow> size_t \<Rightarrow> attempt list \<Rightarrow> io_outcome option" where
  "spec_io_loop try_again len count [] = None"
| "spec_io_loop try_again len count (a # script) =
    (if 0 <s returned a then
       (if returned a \<ge> len then Some (Io_result (count + returned a) 0)
        else spec_io_loop try_again (len - returned a) (count + returned a) script)
     else if returned a = 0 then Some (Io_result count 0)
     else if len > 0 \<and> try_again (errno a) then
       (if wait_raises a then Some Io_raise else spec_io_loop try_again len count script)
     else Some (Io_result (- 1) (errno a)))"

section \<open>Runs of the epoll backend\<close>

text \<open>
  A run is a sequence of steps that change the state of the selector through \<^verbatim>\<open>io_wait\<close>
  and the dispatch alone: a fiber enters \<^verbatim>\<open>io_wait\<close>; a parked fiber is resumed by the host
  (with a value, with the cancellation value, or with an exception) and leaves \<^verbatim>\<open>io_wait\<close>;
  or \<^verbatim>\<open>select\<close> handles a kernel event, where \<open>script\<close> says what each fiber resumed by
  the handler does. The kernel reports events only for a descriptor in the interest list, so
  a \<open>Handle\<close> step for another descriptor is not part of any run.
\<close>

datatype epoll_step =
    Wait wait_step
  | Handle nat addr int "32 word" "fiber \<Rightarrow> events \<Rightarrow> wait_step list"

fun EPoll_run :: "epoll_step list \<Rightarrow> epoll \<Rightarrow> epoll option" where
  "EPoll_run [] st = Some st"
| "EPoll_run (Wait x # steps) st =
    (case EPoll_wait_step x st of None \<Rightarrow> None | Some st' \<Rightarrow> EPoll_run steps st')"
| "EPoll_run (Handle fuel saved fd flags script # steps) st =
    (if \<not> interest st fd then None
     else case IO_Event_Selector_EPoll_handle fuel (EPoll_fiber_transfer script) saved fd flags st of
            None \<Rightarrow> None
          | Some (r, st') \<Rightarrow> EPoll_run steps st')"

text \<open>
  \<open>mask_kept s s'\<close>: no armed mask of \<open>s\<close> has lost a bit in \<open>s'\<close>. \<open>armed_nonzero s\<close>:
  every descriptor in the interest list of the kernel has a nonzero armed mask, and no
  \<^verbatim>\<open>EPOLL_CTL_DEL\<close> has been called.
\<close>

definition mask_kept :: "epoll \<Rightarrow> epoll \<Rightarrow> bool" where
  "mask_kept s s' = (\<forall>d. descriptor_events s d AND descriptor_events s' d = descriptor_events s d)"

definition is_del :: "call \<Rightarrow> bool" where
  "is_del c = (case c of Epoll_ctl operation fd flags \<Rightarrow> operation = EPOLL_CTL_DEL | _ \<Rightarrow> False)"

definition armed_nonzero :: "epoll \<Rightarrow> bool" where
  "armed_nonzero s =
    ((\<forall>d. interest s d \<longrightarrow> descriptor_events s d \<noteq> 0) \<and> \<not> list_ex is_del (calls s))"

definition grows :: "epoll \<Rightarrow> epoll \<Rightarrow> bool" where
  "grows s s' =
    (mask_kept s s'
     \<and> (armed_nonzero s \<longrightarrow> armed_nonzero s' \<and> (\<forall>d. interest s d \<longrightarrow> interest s' d)))"

section \<open>Example states\<close>

text \<open>
  States used to run the definitions on concrete inputs. In \<open>EPoll_parked\<close> the fiber 7 is
  parked in \<^verbatim>\<open>io_wait\<close> for READABLE on descriptor 3, with its waiter at \<open>Stack 1\<close>;
  \<open>KQueue_parked\<close> is the same situation on the kqueue backend.
\<close>

definition parked_links :: heap where
  "parked_links =
    (links EPoll_initial)
      (Descriptor_list 3 := \<lparr>head = Some (Stack 1), tail = Some (Stack 1)\<rparr>,
       Stack 1 := \<lparr>head = Some (Descriptor_list 3), tail = Some (Descriptor_list 3)\<rparr>)"

definition EPoll_parked :: epoll where
  "EPoll_parked =
    \<lparr>links = parked_links,
     waiting_events = (\<lambda>a. 0)(Stack 1 := IO_EVENT_READABLE),
     waiting_fiber = (\<lambda>a. 0)(Stack 1 := 7), calls = [], transfers = [],
     descriptor_events = (\<lambda>d. 0)(3 := IO_EVENT_READABLE),
     interest = (\<lambda>d. False)(3 := True)\<rparr>"

definition KQueue_parked :: kqueue where
  "KQueue_parked =
    \<lparr>links = parked_links,
     waiting_events = (\<lambda>a. 0)(Stack 1 := IO_EVENT_READABLE),
     waiting_fiber = (\<lambda>a. 0)(Stack 1 := 7), calls = [], transfers = [],
     descriptor_ready = (\<lambda>d. 0)\<rparr>"

text \<open>
  In \<open>EPoll_three\<close> and \<open>KQueue_three\<close> three fibers are parked in \<^verbatim>\<open>io_wait\<close> on descriptor
  3: following the \<^verbatim>\<open>tail\<close> pointers from the list head, fiber 11 at \<open>Stack 1\<close> waits for
  READABLE, fiber 12 at \<open>Stack 2\<close> for WRITABLE, fiber 13 at \<open>Stack 3\<close> for both.
  \<open>parked_script\<close> is a fiber that, when resumed, returns from \<^verbatim>\<open>io_wait\<close> and suspends
  elsewhere; with \<open>rewait_script\<close> fiber 11 calls \<^verbatim>\<open>io_wait\<close> for READABLE on descriptor 3
  again before it suspends.
\<close>

definition three_links :: heap where
  "three_links =
    (links EPoll_initial)
      (Descriptor_list 3 := \<lparr>head = Some (Stack 3), tail = Some (Stack 1)\<rparr>,
       Stack 1 := \<lparr>head = Some (Descriptor_list 3), tail = Some (Stack 2)\<rparr>,
       Stack 2 := \<lparr>head = Some (Stack 1), tail = Some (Stack 3)\<rparr>,
       Stack 3 := \<lparr>head = Some (Stack 2), tail = Some (Descriptor_list 3)\<rparr>)"

definition three_events :: "addr \<Rightarrow> events" where
  "three_events =
    (\<lambda>a. 0)(Stack 1 := IO_EVENT_READABLE, Stack 2 := IO_EVENT_WRITABLE,
            Stack 3 := IO_EVENT_READABLE OR IO_EVENT_WRITABLE)"

definition three_fibers :: "addr \<Rightarrow> fiber" where
  "three_fibers = (\<lambda>a. 0)(Stack 1 := 11, Stack 2 := 12, Stack 3 := 13)"

definition EPoll_three :: epoll where
  "EPoll_three =
    \<lparr>links = three_links, waiting_events = three_events, waiting_fiber = three_fibers, calls = [], transfers = [],
     descriptor_events = (\<lambda>d. 0)(3 := IO_EVENT_READABLE OR IO_EVENT_WRITABLE),
     interest = (\<lambda>d. False)(3 := True)\<rparr>"

definition KQueue_three :: kqueue where
  "KQueue_three =
    \<lparr>links = three_links, waiting_events = three_events, waiting_fiber = three_fibers, calls = [], transfers = [],
     descriptor_ready = (\<lambda>d. 0)(3 := IO_EVENT_READABLE)\<rparr>"

definition parked_script :: "fiber \<Rightarrow> events \<Rightarrow> wait_step list" where
  "parked_script fiber argument = [Leave_io_wait (Resume (Integer argument)) (Stack (fiber - 10))]"

definition rewait_script :: "fiber \<Rightarrow> events \<Rightarrow> wait_step list" where
  "rewait_script fiber argument =
    (if fiber = 11 then
       [Leave_io_wait (Resume (Integer argument)) (Stack 1),
        Enter_io_wait None 11 3 IO_EVENT_READABLE (Stack 1)]
     else [Leave_io_wait (Resume (Integer argument)) (Stack (fiber - 10))])"

text \<open>
  In \<open>EPoll_two\<close> descriptor 3 is armed for WRITABLE and PRIORITY: fiber 11 at \<open>Stack 1\<close>
  waits for WRITABLE and fiber 12 at \<open>Stack 2\<close> for PRIORITY.
\<close>

definition two_links :: heap where
  "two_links =
    (links EPoll_initial)
      (Descriptor_list 3 := \<lparr>head = Some (Stack 2), tail = Some (Stack 1)\<rparr>,
       Stack 1 := \<lparr>head = Some (Descriptor_list 3), tail = Some (Stack 2)\<rparr>,
       Stack 2 := \<lparr>head = Some (Stack 1), tail = Some (Descriptor_list 3)\<rparr>)"

definition EPoll_two :: epoll where
  "EPoll_two =
    \<lparr>links = two_links,
     waiting_events = (\<lambda>a. 0)(Stack 1 := IO_EVENT_WRITABLE, Stack 2 := IO_EVENT_PRIORITY),
     waiting_fiber = (\<lambda>a. 0)(Stack 1 := 11, Stack 2 := 12), calls = [], transfers = [],
     descriptor_events = (\<lambda>d. 0)(3 := IO_EVENT_WRITABLE OR IO_EVENT_PRIORITY),
     interest = (\<lambda>d. False)(3 := True)\<rparr>"




text \<open>
  In \<open>EPoll_process_parked\<close> fiber 7 is parked in \<^verbatim>\<open>process_wait\<close> for process 100, whose
  process descriptor is 5, with its waiter at \<open>Stack 1\<close>: the state that
  \<^verbatim>\<open>IO_Event_Selector_EPoll_process_wait\<close> reaches from the initial state.
\<close>

definition EPoll_process_parked :: epoll where
  "EPoll_process_parked =
    \<lparr>links = (links EPoll_initial)
        (Stack 1 := \<lparr>head = Some (Descriptor_list 5), tail = Some (Descriptor_list 5)\<rparr>,
         Descriptor_list 5 := \<lparr>head = Some (Stack 1), tail = Some (Stack 1)\<rparr>),
     waiting_events = (\<lambda>a. 0)(Stack 1 := IO_EVENT_READABLE),
     waiting_fiber = (\<lambda>a. 0)(Stack 1 := 7),
     calls = [Pidfd_open 100,
              Epoll_ctl EPOLL_CTL_ADD 5 (EPOLLIN OR EPOLLERR OR EPOLLHUP OR EPOLLONESHOT)],
     transfers = [],
     descriptor_events = (\<lambda>d. 0)(5 := IO_EVENT_READABLE),
     interest = (\<lambda>d. False)(5 := True)\<rparr>"

text \<open>
  With \<open>cancel_second\<close> fiber 11, once resumed, makes the host raise an exception into fiber
  12, whose waiter is at \<open>Stack 2\<close>. In \<open>KQueue_both\<close> the three fibers of \<open>KQueue_three\<close>
  are parked and the record of descriptor 3 has accumulated READABLE and WRITABLE.
\<close>

definition cancel_second :: "fiber \<Rightarrow> addr list" where
  "cancel_second fiber = (if fiber = 11 then [Stack 2] else [])"

definition KQueue_both :: kqueue where
  "KQueue_both =
    KQueue_three\<lparr>descriptor_ready := (\<lambda>d. 0)(3 := IO_EVENT_READABLE OR IO_EVENT_WRITABLE)\<rparr>"

section \<open>Well-formed lists and the list operations\<close>

lemma chain_cong:
  "(\<And>a. a \<in> set (p # xs) \<Longrightarrow> nx' a = nx a) \<Longrightarrow> chain nx' p xs q = chain nx p xs q"
  by (induction xs arbitrary: p) auto

lemma chain_append:
  "chain nx p (xs @ y # ys) q = (chain nx p xs y \<and> chain nx y ys q)"
  by (induction xs arbitrary: p) auto

lemma chain_insert:
  "chain nx p (xs @ ys) q \<Longrightarrow> distinct (p # xs @ ys) \<Longrightarrow> s \<notin> set (p # xs @ ys)
   \<Longrightarrow> chain (nx(last (p # xs) := Some s, s := Some (hd (ys @ [q])))) p (xs @ s # ys) q"
proof (induction xs arbitrary: p)
  case Nil
  define F where "F = nx(p := Some s, s := Some (hd (ys @ [q])))"
  have Fp: "F p = Some s" and Fs: "F s = Some (hd (ys @ [q]))"
    using Nil.prems by (auto simp: F_def)
  have "chain F s ys q"
  proof (cases ys)
    case Nil
    then show ?thesis using Fs by simp
  next
    case (Cons y ys')
    have "chain F y ys' q = chain nx y ys' q"
      using Nil.prems Cons by (intro chain_cong) (auto simp: F_def)
    then show ?thesis using Nil.prems Cons Fs by simp
  qed
  then have "chain F p ([] @ s # ys) q" using Fp by simp
  moreover have lp: "last [p] = p" by simp
  ultimately show ?case unfolding lp F_def by blast
next
  case (Cons x xs)
  define F where "F = nx(last (x # xs) := Some s, s := Some (hd (ys @ [q])))"
  have l: "last (p # x # xs) = last (x # xs)" by simp
  have "chain F x (xs @ s # ys) q"
    unfolding F_def using Cons.prems by (intro Cons.IH) auto
  moreover have "p \<noteq> last (x # xs)" "p \<noteq> s"
    using Cons.prems last_in_set[of "x # xs"] by auto
  then have "F p = nx p" by (simp add: F_def)
  moreover have "nx p = Some x" using Cons.prems by simp
  ultimately have "chain F p ((x # xs) @ s # ys) q" by simp
  then show ?case unfolding l F_def .
qed

lemma chain_remove:
  "chain nx p (xs @ n # ys) q \<Longrightarrow> distinct (p # xs @ n # ys)
   \<Longrightarrow> chain (nx(last (p # xs) := Some (hd (ys @ [q])), n := v)) p (xs @ ys) q"
proof (induction xs arbitrary: p)
  case Nil
  define F where "F = nx(p := Some (hd (ys @ [q])), n := v)"
  have Fp: "F p = Some (hd (ys @ [q]))"
    using Nil.prems by (auto simp: F_def)
  have "chain F p ys q"
  proof (cases ys)
    case Nil
    then show ?thesis using Fp by simp
  next
    case (Cons y ys')
    have "chain F y ys' q = chain nx y ys' q"
      using Nil.prems Cons by (intro chain_cong) (auto simp: F_def)
    then show ?thesis using Nil.prems Cons Fp by simp
  qed
  then have "chain F p ([] @ ys) q" by simp
  moreover have lp: "last [p] = p" by simp
  ultimately show ?case unfolding lp F_def by blast
next
  case (Cons x xs)
  define F where "F = nx(last (x # xs) := Some (hd (ys @ [q])), n := v)"
  have l: "last (p # x # xs) = last (x # xs)" by simp
  have "chain F x (xs @ ys) q"
    unfolding F_def using Cons.prems by (intro Cons.IH) auto
  moreover have "p \<noteq> last (x # xs)" "p \<noteq> n"
    using Cons.prems last_in_set[of "x # xs"] by auto
  then have "F p = nx p" by (simp add: F_def)
  moreover have "nx p = Some x" using Cons.prems by simp
  ultimately have "chain F p ((x # xs) @ ys) q" by simp
  then show ?case unfolding l F_def .
qed

lemma chain_hd: "chain nx p xs q \<Longrightarrow> nx p = Some (hd (xs @ [q]))"
  by (cases xs) auto

lemma last_rev_hd: "last (a # rev xs) = hd (xs @ [a])"
  by (cases xs) auto

lemma hd_rev_last: "hd (rev xs @ [a]) = last (a # xs)"
  by (cases xs rule: rev_cases) auto

lemma dll_tail_at:
  assumes "dll h list (xs @ n # ys)"
  shows "tail (h n) = Some (hd (ys @ [list]))"
proof -
  have "chain (\<lambda>a. tail (h a)) list (xs @ n # ys) list"
    using assms by (simp add: dll_def)
  then have "chain (\<lambda>a. tail (h a)) n ys list" by (simp add: chain_append)
  then show ?thesis by (rule chain_hd)
qed

lemma dll_head_at:
  assumes "dll h list (xs @ n # ys)"
  shows "head (h n) = Some (last (list # xs))"
proof -
  have "chain (\<lambda>a. head (h a)) list (rev ys @ n # rev xs) list"
    using assms by (simp add: dll_def)
  then have "chain (\<lambda>a. head (h a)) n (rev xs) list" by (simp add: chain_append)
  then have "head (h n) = Some (hd (rev xs @ [list]))" by (rule chain_hd)
  then show ?thesis by (simp only: hd_rev_last)
qed

lemma dll_list_tail: "dll h list xs \<Longrightarrow> tail (h list) = Some (hd (xs @ [list]))"
  using chain_hd[of "\<lambda>a. tail (h a)" list xs list] by (simp add: dll_def)

lemma dll_pop:
  assumes d: "dll h list (xs @ n # ys)"
  shows "\<exists>h'. IO_Event_List_pop n h = Some h' \<and> dll h' list (xs @ ys)
           \<and> h' n = \<lparr>head = None, tail = None\<rparr>
           \<and> (\<forall>a. a \<notin> set (list # xs @ n # ys) \<longrightarrow> h' a = h a)"
proof -
  define hd0 where "hd0 = last (list # xs)"
  define tl0 where "tl0 = hd (ys @ [list])"
  have hn: "head (h n) = Some hd0" "tail (h n) = Some tl0"
    using dll_head_at[OF d] dll_tail_at[OF d] by (simp_all add: hd0_def tl0_def)
  have dist: "distinct (list # xs @ n # ys)" using d by (simp add: dll_def)
  have hd0_in: "hd0 \<in> set (list # xs)" unfolding hd0_def by (rule last_in_set) simp
  have tl0_in: "tl0 \<in> set (list # ys)" unfolding tl0_def by (cases ys) auto
  have ne: "hd0 \<noteq> n" "tl0 \<noteq> n" using dist hd0_in tl0_in by auto
  define h' where "h' = (h(hd0 := (h hd0)\<lparr>tail := Some tl0\<rparr>,
      tl0 := ((h(hd0 := (h hd0)\<lparr>tail := Some tl0\<rparr>)) tl0)\<lparr>head := Some hd0\<rparr>,
      n := \<lparr>head = None, tail = None\<rparr>))"
  have pop: "IO_Event_List_pop n h = Some h'"
    by (simp add: IO_Event_List_pop_def hn h'_def Let_def)
  have T: "(\<lambda>a. tail (h' a)) = (\<lambda>a. tail (h a))(hd0 := Some tl0, n := None)"
    using ne by (auto simp: h'_def fun_eq_iff)
  have H: "(\<lambda>a. head (h' a)) = (\<lambda>a. head (h a))(tl0 := Some hd0, n := None)"
    using ne by (auto simp: h'_def fun_eq_iff)
  have cT: "chain (\<lambda>a. tail (h' a)) list (xs @ ys) list"
    unfolding T hd0_def tl0_def using d dist
    by (intro chain_remove) (simp_all add: dll_def)
  have rdist: "distinct (list # rev ys @ n # rev xs)" using dist by auto
  have "chain (\<lambda>a. head (h a)) list (rev ys @ n # rev xs) list"
    using d by (simp add: dll_def)
  then have "chain ((\<lambda>a. head (h a))(last (list # rev ys) := Some (hd (rev xs @ [list])), n := None))
          list (rev ys @ rev xs) list"
    using rdist by (rule chain_remove)
  then have cH: "chain (\<lambda>a. head (h' a)) list (rev (xs @ ys)) list"
    unfolding H hd0_def tl0_def by (simp only: last_rev_hd hd_rev_last rev_append)
  have "dll h' list (xs @ ys)"
    using cT cH dist by (simp add: dll_def)
  moreover have "h' n = \<lparr>head = None, tail = None\<rparr>" by (simp add: h'_def)
  moreover have "\<forall>a. a \<notin> set (list # xs @ n # ys) \<longrightarrow> h' a = h a"
    using hd0_in tl0_in by (auto simp: h'_def)
  ultimately show ?thesis using pop by blast
qed

lemma dll_prepend:
  assumes d: "dll h list xs" and fresh: "node \<notin> set (list # xs)"
  shows "\<exists>h'. IO_Event_List_prepend list node h = Some h' \<and> dll h' list (node # xs)
           \<and> (\<forall>a. a \<notin> set (node # list # xs) \<longrightarrow> h' a = h a)"
proof -
  define t where "t = hd (xs @ [list])"
  have ht: "tail (h list) = Some t" using dll_list_tail[OF d] by (simp add: t_def)
  have dist: "distinct (list # xs)" using d by (simp add: dll_def)
  have t_in: "t \<in> set (list # xs)" unfolding t_def by (cases xs) auto
  have ne: "t \<noteq> node" "list \<noteq> node" using fresh t_in by auto
  define h1 where "h1 = h(node := \<lparr>head = Some list, tail = Some t\<rparr>)"
  define h2 where "h2 = h1(list := (h1 list)\<lparr>tail := Some node\<rparr>)"
  define h' where "h' = h2(t := (h2 t)\<lparr>head := Some node\<rparr>)"
  have pre: "IO_Event_List_prepend list node h = Some h'"
    by (simp add: IO_Event_List_prepend_def ht h'_def h2_def h1_def Let_def)
  have T: "(\<lambda>a. tail (h' a)) = (\<lambda>a. tail (h a))(last [list] := Some node, node := Some (hd (xs @ [list])))"
    using ne by (auto simp: h'_def h2_def h1_def fun_eq_iff t_def)
  have H: "(\<lambda>a. head (h' a)) = (\<lambda>a. head (h a))(last (list # rev xs) := Some node, node := Some (hd ([] @ [list])))"
    using ne by (auto simp: h'_def h2_def h1_def fun_eq_iff t_def last_rev_hd simp del: last.simps)
  have "chain (\<lambda>a. tail (h a)) list ([] @ xs) list" using d by (simp add: dll_def)
  then have "chain ((\<lambda>a. tail (h a))(last (list # []) := Some node, node := Some (hd (xs @ [list]))))
     list ([] @ node # xs) list"
    using dist fresh by (intro chain_insert) simp_all
  then have cT: "chain (\<lambda>a. tail (h' a)) list (node # xs) list" unfolding T by simp
  have "chain (\<lambda>a. head (h a)) list (rev xs @ []) list" using d by (simp add: dll_def)
  then have "chain ((\<lambda>a. head (h a))(last (list # rev xs) := Some node, node := Some (hd ([] @ [list]))))
     list (rev xs @ node # []) list"
    using dist fresh by (intro chain_insert) simp_all
  then have cH: "chain (\<lambda>a. head (h' a)) list (rev (node # xs)) list" unfolding H by simp
  have "dll h' list (node # xs)" using cT cH dist fresh by (auto simp: dll_def)
  moreover have "\<forall>a. a \<notin> set (node # list # xs) \<longrightarrow> h' a = h a"
    using t_in by (auto simp: h'_def h2_def h1_def)
  ultimately show ?thesis using pre by blast
qed

lemma dll_append:
  assumes d: "dll h list (xs @ n # ys)" and fresh: "s \<notin> set (list # xs @ n # ys)"
  shows "\<exists>h'. IO_Event_List_append n s h = Some h' \<and> dll h' list (xs @ s # n # ys)
           \<and> (\<forall>a. a \<notin> set (s # list # xs @ n # ys) \<longrightarrow> h' a = h a)"
proof -
  define hd0 where "hd0 = last (list # xs)"
  have hn: "head (h n) = Some hd0" using dll_head_at[OF d] by (simp add: hd0_def)
  have dist: "distinct (list # xs @ n # ys)" using d by (simp add: dll_def)
  have hd0_in: "hd0 \<in> set (list # xs)" unfolding hd0_def by (rule last_in_set) simp
  have ne: "hd0 \<noteq> n" "hd0 \<noteq> s" "n \<noteq> s" using dist hd0_in fresh by auto
  define h1 where "h1 = h(s := \<lparr>head = Some hd0, tail = Some n\<rparr>)"
  define h2 where "h2 = h1(n := (h1 n)\<lparr>head := Some s\<rparr>)"
  define h' where "h' = h2(hd0 := (h2 hd0)\<lparr>tail := Some s\<rparr>)"
  have app: "IO_Event_List_append n s h = Some h'"
    by (simp add: IO_Event_List_append_def hn h'_def h2_def h1_def Let_def)
  have T: "(\<lambda>a. tail (h' a)) = (\<lambda>a. tail (h a))(last (list # xs) := Some s, s := Some (hd ((n # ys) @ [list])))"
    using ne by (auto simp: h'_def h2_def h1_def fun_eq_iff hd0_def simp del: last.simps)
  have ln: "last (list # rev ys @ [n]) = n" by simp
  have H: "(\<lambda>a. head (h' a)) = (\<lambda>a. head (h a))(last (list # rev ys @ [n]) := Some s, s := Some (hd (rev xs @ [list])))"
    unfolding ln hd_rev_last
    using ne by (auto simp: h'_def h2_def h1_def fun_eq_iff hd0_def simp del: last.simps)
  have "chain (\<lambda>a. tail (h a)) list (xs @ (n # ys)) list" using d by (simp add: dll_def)
  then have "chain ((\<lambda>a. tail (h a))(last (list # xs) := Some s, s := Some (hd ((n # ys) @ [list]))))
     list (xs @ s # (n # ys)) list"
    using dist fresh by (intro chain_insert) simp_all
  then have cT: "chain (\<lambda>a. tail (h' a)) list (xs @ s # n # ys) list" unfolding T by simp
  have "chain (\<lambda>a. head (h a)) list ((rev ys @ [n]) @ rev xs) list" using d by (simp add: dll_def)
  then have "chain ((\<lambda>a. head (h a))(last (list # rev ys @ [n]) := Some s, s := Some (hd (rev xs @ [list]))))
     list ((rev ys @ [n]) @ s # rev xs) list"
    using dist fresh by (intro chain_insert) auto
  then have cH: "chain (\<lambda>a. head (h' a)) list (rev (xs @ s # n # ys)) list" unfolding H by simp
  have "dll h' list (xs @ s # n # ys)" using cT cH dist fresh by (auto simp: dll_def)
  moreover have "\<forall>a. a \<notin> set (s # list # xs @ n # ys) \<longrightarrow> h' a = h a"
    using hd0_in by (auto simp: h'_def h2_def h1_def)
  ultimately show ?thesis using app by blast
qed

section \<open>The kernel waits of select\<close>








text \<open>
  The millisecond timeout wraps around: 2147484 seconds become a negative number, and
  4294967.2955 seconds become \<open>-1\<close>, the timeout of an \<^verbatim>\<open>epoll_wait\<close> without limit; half a
  millisecond becomes 0.
\<close>

lemma make_timeout_ms_wraps:
  "make_timeout_ms (Some \<lparr>tv_sec = 2147484, tv_nsec = 0\<rparr>) = - 2147483296"
  "make_timeout_ms (Some \<lparr>tv_sec = 4294967, tv_nsec = 295500000\<rparr>) = - 1"
  "make_timeout_ms (Some \<lparr>tv_sec = 0, tv_nsec = 500000\<rparr>) = 0"
  "make_timeout_ms (Some \<lparr>tv_sec = 2, tv_nsec = 500000000\<rparr>) = 2500"
  by (simp_all add: make_timeout_ms_def timeout_nonblocking_def c_int_def c_long_def c_div_def)

section \<open>The wait primitives\<close>

lemma dll_cong:
  "(\<And>a. a \<in> set (list # xs) \<Longrightarrow> h' a = h a) \<Longrightarrow> dll h' list xs = dll h list xs"
proof -
  assume a: "\<And>a. a \<in> set (list # xs) \<Longrightarrow> h' a = h a"
  have "chain (\<lambda>a. tail (h' a)) list xs list = chain (\<lambda>a. tail (h a)) list xs list"
    using a by (intro chain_cong) simp
  moreover have "chain (\<lambda>a. head (h' a)) list (rev xs) list = chain (\<lambda>a. head (h a)) list (rev xs) list"
    using a by (intro chain_cong) simp
  ultimately show ?thesis by (simp add: dll_def)
qed

lemma dll_waiting_init:
  "waiting \<notin> set (list # xs) \<Longrightarrow>
   dll (links (waiting_init waiting fiber events st)) list xs = dll (links st) list xs"
  by (rule dll_cong) (auto simp: waiting_init_def)

lemma list_prepend_dll:
  assumes "dll (links st) list xs" "node \<notin> set (list # xs)"
  shows "\<exists>st'. list_prepend list node st = Some st' \<and> dll (links st') list (node # xs)
          \<and> st' = st\<lparr>links := links st'\<rparr>
          \<and> (\<forall>a. a \<notin> set (node # list # xs) \<longrightarrow> links st' a = links st a)"
proof -
  obtain h' where h: "IO_Event_List_prepend list node (links st) = Some h'"
    "dll h' list (node # xs)" "\<forall>a. a \<notin> set (node # list # xs) \<longrightarrow> h' a = links st a"
    using dll_prepend[OF assms] by blast
  then show ?thesis by (simp add: list_prepend_def)
qed

lemma list_pop_dll:
  assumes "dll (links st) list (xs @ n # ys)"
  shows "\<exists>st'. list_pop n st = Some st' \<and> dll (links st') list (xs @ ys)
          \<and> st' = st\<lparr>links := links st'\<rparr>
          \<and> links st' n = \<lparr>head = None, tail = None\<rparr>
          \<and> (\<forall>a. a \<notin> set (list # xs @ n # ys) \<longrightarrow> links st' a = links st a)"
proof -
  obtain h' where h: "IO_Event_List_pop n (links st) = Some h'"
    "dll h' list (xs @ ys)" "h' n = \<lparr>head = None, tail = None\<rparr>"
    "\<forall>a. a \<notin> set (list # xs @ n # ys) \<longrightarrow> h' a = links st a"
    using dll_pop[OF assms] by blast
  then show ?thesis by (simp add: list_pop_def)
qed

lemma list_append_dll:
  assumes "dll (links st) list (xs @ n # ys)" "s \<notin> set (list # xs @ n # ys)"
  shows "\<exists>st'. list_append n s st = Some st' \<and> dll (links st') list (xs @ s # n # ys)
          \<and> st' = st\<lparr>links := links st'\<rparr>
          \<and> (\<forall>a. a \<notin> set (s # list # xs @ n # ys) \<longrightarrow> links st' a = links st a)"
proof -
  obtain h' where h: "IO_Event_List_append n s (links st) = Some h'"
    "dll h' list (xs @ s # n # ys)" "\<forall>a. a \<notin> set (s # list # xs @ n # ys) \<longrightarrow> h' a = links st a"
    using dll_append[OF assms] by blast
  then show ?thesis by (simp add: list_append_def)
qed

lemma lookup_nonneg:
  "0 \<le> d \<Longrightarrow> IO_Event_Selector_EPoll_Descriptor_lookup d = Inr d"
  by (simp add: IO_Event_Selector_EPoll_Descriptor_lookup_def IO_Event_Array_lookup_def)

lemma EPoll_io_wait_covered:
  assumes d: "0 \<le> descriptor"
    and l: "dll (links st) (Descriptor_list descriptor) xs"
    and f: "waiting \<notin> set (Descriptor_list descriptor # xs)"
    and c: "descriptor_events st descriptor AND events = events"
  shows "\<exists>st'. IO_Event_Selector_EPoll_io_wait ctl_errno fiber descriptor events waiting st
             = Some (Suspended st')
           \<and> calls st' = calls st \<and> descriptor_events st' = descriptor_events st
           \<and> dll (links st') (Descriptor_list descriptor) (waiting # xs)
           \<and> waiting_events st' waiting = events \<and> waiting_fiber st' waiting = fiber"
proof -
  define st0 where "st0 = waiting_init waiting fiber events st"
  have l0: "dll (links st0) (Descriptor_list descriptor) xs"
    unfolding st0_def using l dll_waiting_init[OF f, of fiber events st] by simp
  obtain st' where p: "list_prepend (Descriptor_list descriptor) waiting st0 = Some st'"
    "dll (links st') (Descriptor_list descriptor) (waiting # xs)" "st' = st0\<lparr>links := links st'\<rparr>"
    using list_prepend_dll[OF l0 f] by blast
  have e0: "descriptor_events st0 = descriptor_events st" "calls st0 = calls st"
    "waiting_events st0 waiting = events" "waiting_fiber st0 waiting = fiber"
    by (simp_all add: st0_def waiting_init_def)
  have "IO_Event_Selector_EPoll_io_wait ctl_errno fiber descriptor events waiting st = Some (Suspended st')"
    using c p(1) by (simp add: IO_Event_Selector_EPoll_io_wait_def lookup_nonneg[OF d] st0_def[symmetric] e0 Let_def)
  moreover have "calls st' = calls st" "descriptor_events st' = descriptor_events st"
    "waiting_events st' waiting = events" "waiting_fiber st' waiting = fiber"
    using e0 by (subst p(3), simp)+
  ultimately show ?thesis using p(2) by blast
qed

lemma EPoll_io_wait_armed:
  assumes d: "0 \<le> descriptor"
    and l: "dll (links st) (Descriptor_list descriptor) xs"
    and f: "waiting \<notin> set (Descriptor_list descriptor # xs)"
    and c: "descriptor_events st descriptor AND events \<noteq> events"
  shows "\<exists>st'. IO_Event_Selector_EPoll_io_wait None fiber descriptor events waiting st
             = Some (Suspended st')
           \<and> calls st' = calls st @
               [Epoll_ctl (if descriptor_events st descriptor \<noteq> 0 then EPOLL_CTL_MOD else EPOLL_CTL_ADD)
                  descriptor (epoll_flags_from_events (descriptor_events st descriptor OR events))]
           \<and> descriptor_events st' =
               (descriptor_events st)(descriptor := descriptor_events st descriptor OR events)
           \<and> dll (links st') (Descriptor_list descriptor) (waiting # xs)
           \<and> waiting_events st' waiting = events \<and> waiting_fiber st' waiting = fiber"
proof -
  define st0 where "st0 = waiting_init waiting fiber events st"
  define c1 where "c1 = Epoll_ctl (if descriptor_events st descriptor \<noteq> 0 then EPOLL_CTL_MOD else EPOLL_CTL_ADD)
                  descriptor (epoll_flags_from_events (descriptor_events st descriptor OR events))"
  define st2 where "st2 = (epoll_ctl_done
      (if descriptor_events st descriptor \<noteq> 0 then EPOLL_CTL_MOD else EPOLL_CTL_ADD) descriptor
      (call c1 st0))\<lparr>descriptor_events :=
      (descriptor_events st)(descriptor := descriptor_events st descriptor OR events)\<rparr>"
  have e0: "descriptor_events st0 = descriptor_events st" "calls st0 = calls st"
    "waiting_events st0 waiting = events" "waiting_fiber st0 waiting = fiber"
    by (simp_all add: st0_def waiting_init_def)
  have l0: "dll (links st0) (Descriptor_list descriptor) xs"
    unfolding st0_def using l dll_waiting_init[OF f, of fiber events st] by simp
  have l2: "dll (links st2) (Descriptor_list descriptor) xs"
    using l0 by (simp add: st2_def call_def epoll_ctl_done_def)
  obtain st' where p: "list_prepend (Descriptor_list descriptor) waiting st2 = Some st'"
    "dll (links st') (Descriptor_list descriptor) (waiting # xs)" "st' = st2\<lparr>links := links st'\<rparr>"
    using list_prepend_dll[OF l2 f] by blast
  have e2: "descriptor_events st2 = (descriptor_events st)(descriptor := descriptor_events st descriptor OR events)"
    "calls st2 = calls st @ [c1]"
    "waiting_events st2 waiting = events" "waiting_fiber st2 waiting = fiber"
    using e0 by (simp_all add: st2_def call_def epoll_ctl_done_def)
  have "IO_Event_Selector_EPoll_io_wait None fiber descriptor events waiting st = Some (Suspended st')"
    using c p(1)
    by (simp add: IO_Event_Selector_EPoll_io_wait_def lookup_nonneg[OF d] st0_def[symmetric] e0 Let_def
        st2_def c1_def call_def)
  moreover have "calls st' = calls st @ [c1]"
    "descriptor_events st' = (descriptor_events st)(descriptor := descriptor_events st descriptor OR events)"
    "waiting_events st' waiting = events" "waiting_fiber st' waiting = fiber"
    using e2 by (subst p(3), simp)+
  ultimately show ?thesis using p(2) unfolding c1_def by blast
qed

lemma EPoll_io_wait_call:
  assumes d: "0 \<le> descriptor"
    and l: "dll (links st) (Descriptor_list descriptor) xs"
    and f: "waiting \<notin> set (Descriptor_list descriptor # xs)"
    and c: "descriptor_events st descriptor AND events \<noteq> events"
  shows "\<exists>p. IO_Event_Selector_EPoll_io_wait ctl_errno fiber descriptor events waiting st = Some p
           \<and> take (Suc (length (calls st))) (calls (progress_state p)) = calls st @
               [Epoll_ctl (if descriptor_events st descriptor \<noteq> 0 then EPOLL_CTL_MOD else EPOLL_CTL_ADD)
                  descriptor (epoll_flags_from_events (descriptor_events st descriptor OR events))]"
proof (cases ctl_errno)
  case None
  show ?thesis
    using EPoll_io_wait_armed[OF d l f c, of fiber] unfolding None
    by (auto simp: progress_state_def)
next
  case (Some e)
  have e0: "descriptor_events (waiting_init waiting fiber events st) = descriptor_events st"
    "calls (waiting_init waiting fiber events st) = calls st"
    by (simp_all add: waiting_init_def)
  show ?thesis
    using c unfolding Some
    by (simp add: IO_Event_Selector_EPoll_io_wait_def lookup_nonneg[OF d] e0 Let_def
        progress_state_def call_def)
qed

lemma EPoll_io_wait_eperm:
  assumes d: "0 \<le> descriptor"
    and c: "descriptor_events st descriptor AND events \<noteq> events"
  shows "\<exists>st'. IO_Event_Selector_EPoll_io_wait (Some EPERM) fiber descriptor events waiting st
             = Some (Completed (Integer events) st')
           \<and> calls st' = calls st @
               [Epoll_ctl (if descriptor_events st descriptor \<noteq> 0 then EPOLL_CTL_MOD else EPOLL_CTL_ADD)
                  descriptor (epoll_flags_from_events (descriptor_events st descriptor OR events)),
                Queue_push fiber, Yield]
           \<and> descriptor_events st' = descriptor_events st
           \<and> links st' waiting = \<lparr>head = None, tail = None\<rparr>
           \<and> (\<forall>a. a \<noteq> waiting \<longrightarrow> links st' a = links st a)"
proof -
  have e0: "descriptor_events (waiting_init waiting fiber events st) = descriptor_events st"
    "calls (waiting_init waiting fiber events st) = calls st"
    "links (waiting_init waiting fiber events st) = (links st)(waiting := \<lparr>head = None, tail = None\<rparr>)"
    by (simp_all add: waiting_init_def)
  show ?thesis
    using c
    by (simp add: IO_Event_Selector_EPoll_io_wait_def lookup_nonneg[OF d] e0 Let_def call_def)
qed

lemma dll_initial: "dll (links EPoll_initial) (Descriptor_list d) []"
  by (simp add: dll_def EPoll_initial_def)

lemma io_wait_ensure_unlinks:
  assumes "dll (links st) list (xs @ waiting # ys)"
  shows "\<exists>st'. io_wait_ensure waiting st = Some st' \<and> dll (links st') list (xs @ ys)
          \<and> st' = st\<lparr>links := links st'\<rparr>
          \<and> links st' waiting = \<lparr>head = None, tail = None\<rparr>"
proof -
  obtain st' where "list_pop waiting st = Some st'" "dll (links st') list (xs @ ys)"
    "st' = st\<lparr>links := links st'\<rparr>" "links st' waiting = \<lparr>head = None, tail = None\<rparr>"
    using list_pop_dll[OF assms] by blast
  then show ?thesis unfolding io_wait_ensure_def by (intro exI[of _ st']) blast
qed

lemma EPoll_io_wait_resumed_unlinks:
  assumes "dll (links st) list (xs @ waiting # ys)"
  shows "\<exists>st'. IO_Event_Selector_EPoll_io_wait_resumed r waiting st
            = Some (EPoll_io_wait_transfer r, st')
          \<and> dll (links st') list (xs @ ys) \<and> calls st' = calls st
          \<and> links st' waiting = \<lparr>head = None, tail = None\<rparr>"
proof -
  obtain st' where s: "io_wait_ensure waiting st = Some st'" "dll (links st') list (xs @ ys)"
    "st' = st\<lparr>links := links st'\<rparr>" "links st' waiting = \<lparr>head = None, tail = None\<rparr>"
    using io_wait_ensure_unlinks[OF assms] by blast
  have "calls st' = calls st" by (subst s(3)) simp
  then show ?thesis using s(1,2,4) by (simp add: IO_Event_Selector_EPoll_io_wait_resumed_def)
qed

lemma KQueue_io_wait_resumed_unlinks:
  assumes "dll (links st) list (xs @ waiting # ys)"
  shows "\<exists>st'. IO_Event_Selector_KQueue_io_wait_resumed r waiting st
            = Some (KQueue_io_wait_transfer r, st')
          \<and> dll (links st') list (xs @ ys) \<and> calls st' = calls st
          \<and> links st' waiting = \<lparr>head = None, tail = None\<rparr>"
proof -
  obtain st' where s: "io_wait_ensure waiting st = Some st'" "dll (links st') list (xs @ ys)"
    "st' = st\<lparr>links := links st'\<rparr>" "links st' waiting = \<lparr>head = None, tail = None\<rparr>"
    using io_wait_ensure_unlinks[OF assms] by blast
  have "calls st' = calls st" by (subst s(3)) simp
  then show ?thesis using s(1,2,4) by (simp add: IO_Event_Selector_KQueue_io_wait_resumed_def)
qed

lemma process_wait_transfer_links:
  "links (snd (process_wait_transfer r status pid st)) = links st"
  by (cases r) (simp_all add: process_wait_transfer_def call_def)

lemma EPoll_process_wait_resumed_unlinks:
  assumes "dll (links st) list (xs @ waiting # ys)"
  shows "\<exists>v st'. IO_Event_Selector_EPoll_process_wait_resumed r status pid descriptor waiting st
            = Some (v, st')
          \<and> dll (links st') list (xs @ ys)
          \<and> links st' waiting = \<lparr>head = None, tail = None\<rparr>
          \<and> last (calls st') = Close descriptor"
proof -
  obtain v st1 where t: "process_wait_transfer r status pid st = (v, st1)"
    by (cases "process_wait_transfer r status pid st")
  have l1: "links st1 = links st"
    using process_wait_transfer_links[of r status pid st] t by simp
  define st2 where "st2 = (call (Close descriptor) st1)\<lparr>interest := (interest st1)(descriptor := False)\<rparr>"
  have d2: "dll (links st2) list (xs @ waiting # ys)"
    using assms l1 by (simp add: st2_def call_def)
  obtain st' where s: "list_pop waiting st2 = Some st'" "dll (links st') list (xs @ ys)"
    "st' = st2\<lparr>links := links st'\<rparr>" "links st' waiting = \<lparr>head = None, tail = None\<rparr>"
    using list_pop_dll[OF d2] by blast
  have "calls st' = calls st1 @ [Close descriptor]"
    by (subst s(3)) (simp add: st2_def call_def)
  then have "last (calls st') = Close descriptor" by simp
  then show ?thesis
    using s(1,2,4) t
    by (simp add: IO_Event_Selector_EPoll_process_wait_resumed_def EPoll_process_wait_ensure_def
        st2_def)
qed

lemma KQueue_process_wait_resumed_unlinks:
  assumes "dll (links st) list (xs @ waiting # ys)"
  shows "\<exists>v st'. IO_Event_Selector_KQueue_process_wait_resumed r status pid waiting st
            = Some (v, st')
          \<and> dll (links st') list (xs @ ys)
          \<and> links st' waiting = \<lparr>head = None, tail = None\<rparr>"
proof -
  obtain v st1 where t: "process_wait_transfer r status pid st = (v, st1)"
    by (cases "process_wait_transfer r status pid st")
  have l1: "links st1 = links st"
    using process_wait_transfer_links[of r status pid st] t by simp
  have d2: "dll (links st1) list (xs @ waiting # ys)"
    using assms l1 by simp
  obtain st' where s: "list_pop waiting st1 = Some st'" "dll (links st') list (xs @ ys)"
    "st' = st1\<lparr>links := links st'\<rparr>" "links st' waiting = \<lparr>head = None, tail = None\<rparr>"
    using list_pop_dll[OF d2] by blast
  from s(1,2,4) show ?thesis
    using t
    by (simp add: IO_Event_Selector_KQueue_process_wait_resumed_def KQueue_process_wait_ensure_def)
qed

lemma io_wait_transfer_cancel:
  "\<not> RTEST v \<Longrightarrow> EPoll_io_wait_transfer (Resume v) = Inr Qfalse"
  "\<not> RTEST v \<Longrightarrow> KQueue_io_wait_transfer (Resume v) = Inr Qfalse"
  by (simp_all add: EPoll_io_wait_transfer_def KQueue_io_wait_transfer_def)

lemma dll_parked: "dll parked_links (Descriptor_list 3) ([] @ Stack 1 # [])"
  by (simp add: dll_def parked_links_def EPoll_initial_def)

lemma EPoll_process_wait_parks:
  "IO_Event_Selector_EPoll_process_wait 5 None 7 100 (Stack 1) EPoll_initial
     = Some (Suspended EPoll_process_parked)"
  by (simp add: IO_Event_Selector_EPoll_process_wait_def IO_Event_Selector_EPoll_Descriptor_lookup_def
      IO_Event_Array_lookup_def call_def EPoll_initial_def waiting_init_def list_prepend_def
      IO_Event_List_prepend_def Let_def epoll_ctl_done_def EPoll_process_parked_def fun_eq_iff)

section \<open>The cursor of the dispatch loop\<close>

lemma parked_on_empty: "parked_on h list {} xs = dll h list xs"
  by (simp add: parked_on_def)

lemma list_append_parked:
  assumes p: "parked_on (links st) list W (xs @ n # ys)"
    and f: "s \<notin> set (list # xs @ n # ys)" and w: "s \<notin> W"
  shows "\<exists>st'. list_append n s st = Some st' \<and> parked_on (links st') list W (xs @ s # n # ys)
          \<and> st' = st\<lparr>links := links st'\<rparr>"
proof -
  have d: "dll (links st) list (xs @ n # ys)" and lw: "list \<notin> W"
    and u: "\<forall>m \<in> W. m \<notin> set (xs @ n # ys) \<longrightarrow> links st m = \<lparr>head = None, tail = None\<rparr>"
    using p by (simp_all add: parked_on_def)
  obtain st' where a: "list_append n s st = Some st'" "dll (links st') list (xs @ s # n # ys)"
    "st' = st\<lparr>links := links st'\<rparr>"
    "\<forall>a. a \<notin> set (s # list # xs @ n # ys) \<longrightarrow> links st' a = links st a"
    using list_append_dll[OF d f] by blast
  have "\<forall>m \<in> W. m \<notin> set (xs @ s # n # ys) \<longrightarrow> links st' m = \<lparr>head = None, tail = None\<rparr>"
  proof (intro ballI impI)
    fix m assume m: "m \<in> W" "m \<notin> set (xs @ s # n # ys)"
    then have "m \<notin> set (s # list # xs @ n # ys)" using lw by auto
    then have "links st' m = links st m" using a(4) by blast
    moreover have "links st m = \<lparr>head = None, tail = None\<rparr>" using u m by auto
    ultimately show "links st' m = \<lparr>head = None, tail = None\<rparr>" by simp
  qed
  then have "parked_on (links st') list W (xs @ s # n # ys)"
    using a(2) lw by (simp add: parked_on_def)
  then show ?thesis using a(1,3) by blast
qed

lemma list_pop_parked:
  assumes p: "parked_on (links st) list W (xs @ n # ys)"
  shows "\<exists>st'. list_pop n st = Some st' \<and> parked_on (links st') list W (xs @ ys)
          \<and> st' = st\<lparr>links := links st'\<rparr>"
proof -
  have d: "dll (links st) list (xs @ n # ys)" and lw: "list \<notin> W"
    and u: "\<forall>m \<in> W. m \<notin> set (xs @ n # ys) \<longrightarrow> links st m = \<lparr>head = None, tail = None\<rparr>"
    using p by (simp_all add: parked_on_def)
  obtain st' where a: "list_pop n st = Some st'" "dll (links st') list (xs @ ys)"
    "st' = st\<lparr>links := links st'\<rparr>" "links st' n = \<lparr>head = None, tail = None\<rparr>"
    "\<forall>a. a \<notin> set (list # xs @ n # ys) \<longrightarrow> links st' a = links st a"
    using list_pop_dll[OF d] by blast
  have "\<forall>m \<in> W. m \<notin> set (xs @ ys) \<longrightarrow> links st' m = \<lparr>head = None, tail = None\<rparr>"
  proof (intro ballI impI)
    fix m assume m: "m \<in> W" "m \<notin> set (xs @ ys)"
    show "links st' m = \<lparr>head = None, tail = None\<rparr>"
    proof (cases "m = n")
      case True
      then show ?thesis using a(4) by simp
    next
      case False
      then have "m \<notin> set (list # xs @ n # ys)" using m lw by auto
      then have "links st' m = links st m" using a(5) by blast
      moreover have "links st m = \<lparr>head = None, tail = None\<rparr>" using u m False by auto
      ultimately show ?thesis by simp
    qed
  qed
  then have "parked_on (links st') list W (xs @ ys)"
    using a(2) lw by (simp add: parked_on_def)
  then show ?thesis using a(1,3) by blast
qed

lemma matching_waiters_subseq:
  "subseq xs ys \<Longrightarrow> subseq (matching_waiters ev fb E xs) (matching_waiters ev fb E ys)"
  unfolding matching_waiters_def by (intro subseq_map subseq_filter)

lemma matching_waiters_Cons:
  "matching_waiters ev fb E (w # ws) =
    (if ev w AND E \<noteq> 0 then (fb w, ev w AND E) # matching_waiters ev fb E ws
     else matching_waiters ev fb E ws)"
  by (simp add: matching_waiters_def)

lemma EPoll_handle_loop_cursor:
  assumes H: "resumed_fiber_keeps_cursor transfer list saved W ws ev fb io_event"
    and sw: "saved \<notin> W"
  shows "parked_on (links s) list W (pre @ post) \<Longrightarrow> saved \<notin> set (list # pre @ post)
    \<Longrightarrow> set post \<subseteq> set ws
    \<Longrightarrow> (\<forall>m \<in> set post. waiting_events s m = ev m \<and> waiting_fiber s m = fb m)
    \<Longrightarrow> length post < fuel
    \<Longrightarrow> \<exists>resumed m s' zs.
          EPoll_handle_loop fuel transfer io_event list saved (hd (post @ [list])) matched s
            = Some (resumed, m, s')
          \<and> subseq resumed (matching_waiters ev fb io_event post)
          \<and> take 1 resumed = take 1 (matching_waiters ev fb io_event post)
          \<and> resumed_in_turn transfer list saved io_event post s resumed s'
          \<and> transfers s' = transfers s @ resumed
          \<and> parked_on (links s') list W zs \<and> saved \<notin> set (list # zs)"
proof (induction "length post" arbitrary: post pre s fuel matched rule: less_induct)
  case less
  obtain k where k: "fuel = Suc k" using less.prems(5) by (cases fuel) auto
  show ?case
  proof (cases post)
    case Nil
    show ?thesis using less.prems(1,2) unfolding k Nil
      by (auto simp: matching_waiters_def intro: resumed_in_turn.finished)
  next
    case (Cons w post0)
    have P: "parked_on (links s) list W (pre @ w # post0)" using less.prems(1) Cons by simp
    have D: "dll (links s) list (pre @ w # post0)" using P by (simp add: parked_on_def)
    have lk: "length post0 < k" using less.prems(5) k Cons by simp
    have dist: "distinct (list # pre @ w # post0)" using D by (simp add: dll_def)
    have wl: "w \<noteq> list" using dist by auto
    have info: "waiting_events s w = ev w" "waiting_fiber s w = fb w"
      using less.prems(4) Cons by auto
    show ?thesis
    proof (cases "ev w AND io_event = 0")
      case True
      have t: "tail (links s w) = Some (hd (post0 @ [list]))"
        using dll_tail_at[OF D] .
      have d': "parked_on (links s) list W ((pre @ [w]) @ post0)" using P by simp
      have s': "saved \<notin> set (list # (pre @ [w]) @ post0)" using less.prems(2) Cons by simp
      have sub: "set post0 \<subseteq> set ws" using less.prems(3) Cons by auto
      have inf: "\<forall>m \<in> set post0. waiting_events s m = ev m \<and> waiting_fiber s m = fb m"
        using less.prems(4) Cons by auto
      have len: "length post0 < length post" using Cons by simp
      obtain resumed m s' zs where r:
        "EPoll_handle_loop k transfer io_event list saved (hd (post0 @ [list])) matched s
            = Some (resumed, m, s')"
        "subseq resumed (matching_waiters ev fb io_event post0)"
        "transfers s' = transfers s @ resumed"
        "parked_on (links s') list W zs" "saved \<notin> set (list # zs)"
        "take 1 resumed = take 1 (matching_waiters ev fb io_event post0)"
        "resumed_in_turn transfer list saved io_event post0 s resumed s'"
        using less.hyps[OF len d' s' sub inf lk, of matched] by blast
      have "EPoll_handle_loop fuel transfer io_event list saved (hd (post @ [list])) matched s
            = Some (resumed, m, s')"
        unfolding k Cons using True wl info t r(1) by (simp add: Let_def)
      moreover have "subseq resumed (matching_waiters ev fb io_event post)"
        unfolding Cons using r(2) True by (simp add: matching_waiters_Cons)
      moreover have "take 1 resumed = take 1 (matching_waiters ev fb io_event post)"
        unfolding Cons using r(6) True by (simp add: matching_waiters_Cons)
      moreover have "resumed_in_turn transfer list saved io_event post s resumed s'"
        unfolding Cons using True info r(7) by (intro resumed_in_turn.passed_over) simp_all
      ultimately show ?thesis using r(3,4,5) by blast
    next
      case False
      have fr: "saved \<notin> set (list # pre @ w # post0)" using less.prems(2) Cons by simp
      obtain s1 where a: "list_append w saved s = Some s1"
        "parked_on (links s1) list W (pre @ saved # w # post0)" "s1 = s\<lparr>links := links s1\<rparr>"
        using list_append_parked[OF P fr sw] by blast
      have i1: "waiting_events s1 = waiting_events s" "waiting_fiber s1 = waiting_fiber s"
        "transfers s1 = transfers s"
        by (subst a(3), simp)+
      have inf1: "\<forall>m \<in> set (w # post0). waiting_events s1 m = ev m \<and> waiting_fiber s1 m = fb m"
        using less.prems(4) i1 Cons by simp
      have sub0: "set (w # post0) \<subseteq> set ws" using less.prems(3) Cons by simp
      obtain s2 pre' post' where tr: "transfer (fb w) (ev w AND io_event) s1 = Some s2"
        "parked_on (links s2) list W (pre' @ saved # post')"
        "subseq post' post0"
        "\<forall>m \<in> set post'. waiting_events s2 m = ev m \<and> waiting_fiber s2 m = fb m"
        "transfers s2 = transfers s1 @ [(fb w, ev w AND io_event)]"
        using H[unfolded resumed_fiber_keeps_cursor_def, rule_format, of w post0 s1 pre]
          sub0 a(2) inf1 False by blast
      have D2: "dll (links s2) list (pre' @ saved # post')" using tr(2) by (simp add: parked_on_def)
      have t2: "tail (links s2 saved) = Some (hd (post' @ [list]))"
        using dll_tail_at[OF D2] .
      obtain s3 where p: "list_pop saved s2 = Some s3" "parked_on (links s3) list W (pre' @ post')"
        "s3 = s2\<lparr>links := links s3\<rparr>"
        using list_pop_parked[OF tr(2)] by blast
      have i3: "waiting_events s3 = waiting_events s2" "waiting_fiber s3 = waiting_fiber s2"
        "transfers s3 = transfers s2"
        by (subst p(3), simp)+
      have inf3: "\<forall>m \<in> set post'. waiting_events s3 m = ev m \<and> waiting_fiber s3 m = fb m"
        using tr(4) i3 by simp
      have "distinct (list # pre' @ saved # post')" using D2 by (simp add: dll_def)
      then have s3: "saved \<notin> set (list # pre' @ post')" by auto
      have sp: "set post' \<subseteq> set post0" using tr(3) by (auto dest: list_emb_set)
      have sub: "set post' \<subseteq> set ws" using sp less.prems(3) Cons by auto
      have "length post' \<le> length post0" using tr(3) by (rule list_emb_length)
      then have len: "length post' < length post" and lk': "length post' < k"
        using Cons lk by simp_all
      obtain resumed m s' zs where r:
        "EPoll_handle_loop k transfer io_event list saved (hd (post' @ [list]))
            (matched OR (ev w AND io_event)) s3
            = Some (resumed, m, s')"
        "subseq resumed (matching_waiters ev fb io_event post')"
        "transfers s' = transfers s3 @ resumed"
        "parked_on (links s') list W zs" "saved \<notin> set (list # zs)"
        "resumed_in_turn transfer list saved io_event post' s3 resumed s'"
        using less.hyps[OF len p(2) s3 sub inf3 lk', of "matched OR (ev w AND io_event)"]
        by blast
      have "EPoll_handle_loop fuel transfer io_event list saved (hd (post @ [list])) matched s
            = Some ((fb w, ev w AND io_event) # resumed, m, s')"
        unfolding k Cons using False wl info a(1) i1 tr(1) t2 p(1) r(1) by (simp add: Let_def)
      moreover have "subseq resumed (matching_waiters ev fb io_event post0)"
        using r(2) matching_waiters_subseq[OF tr(3), of ev fb io_event] by (rule subseq_order.trans)
      then have "subseq ((fb w, ev w AND io_event) # resumed) (matching_waiters ev fb io_event post)"
        unfolding Cons using False by (simp add: matching_waiters_Cons)
      moreover have "take 1 ((fb w, ev w AND io_event) # resumed)
          = take 1 (matching_waiters ev fb io_event post)"
        unfolding Cons using False by (simp add: matching_waiters_Cons)
      moreover have "resumed_in_turn transfer list saved io_event post s
          ((fb w, ev w AND io_event) # resumed) s'"
        unfolding Cons
        using resumed_in_turn.resumed[of s w io_event saved s1 transfer s2 list pre' post' s3 resumed s']
          False info a(1) tr(1) D2 p(1) r(6) by simp
      moreover have "transfers s' = transfers s @ (fb w, ev w AND io_event) # resumed"
        using r(3) i3 tr(5) i1 by simp
      ultimately show ?thesis using r(4,5) by blast
    qed
  qed
qed

section \<open>The dispatch loop\<close>

lemma EPoll_handle_loop_walk:
  assumes H: "resumed_fiber_unlinks transfer list saved ws ev fb io_event"
  shows "dll (links s) list (pre @ post) \<Longrightarrow> saved \<notin> set (list # pre @ post)
    \<Longrightarrow> set post \<subseteq> set ws
    \<Longrightarrow> (\<forall>m \<in> set post. waiting_events s m = ev m \<and> waiting_fiber s m = fb m)
    \<Longrightarrow> length post < fuel
    \<Longrightarrow> \<exists>s' zs. EPoll_handle_loop fuel transfer io_event list saved (hd (post @ [list])) matched s
            = Some (matching_waiters ev fb io_event post,
                    fold (\<lambda>w m. m OR (ev w AND io_event)) post matched, s')
          \<and> transfers s' = transfers s @ matching_waiters ev fb io_event post
          \<and> dll (links s') list zs \<and> saved \<notin> set (list # zs)"
proof (induction post arbitrary: pre s fuel matched)
  case Nil
  obtain k where k: "fuel = Suc k" using Nil.prems(5) by (cases fuel) auto
  show ?case using Nil.prems(1,2) unfolding k by (auto simp: matching_waiters_def)
next
  case (Cons w post)
  obtain k where k: "fuel = Suc k" using Cons.prems(5) by (cases fuel) auto
  have lk: "length post < k" using Cons.prems(5) k by simp
  have dist: "distinct (list # pre @ w # post)" using Cons.prems(1) by (simp add: dll_def)
  have wl: "w \<noteq> list" using dist by auto
  have info: "waiting_events s w = ev w" "waiting_fiber s w = fb w" using Cons.prems(4) by auto
  show ?case
  proof (cases "ev w AND io_event = 0")
    case True
    have t: "tail (links s w) = Some (hd (post @ [list]))"
      using dll_tail_at[OF Cons.prems(1)] .
    have d': "dll (links s) list ((pre @ [w]) @ post)" using Cons.prems(1) by simp
    have s': "saved \<notin> set (list # (pre @ [w]) @ post)" using Cons.prems(2) by simp
    have sub: "set post \<subseteq> set ws" using Cons.prems(3) by auto
    have inf: "\<forall>m \<in> set post. waiting_events s m = ev m \<and> waiting_fiber s m = fb m"
      using Cons.prems(4) by auto
    obtain s' zs where r:
      "EPoll_handle_loop k transfer io_event list saved (hd (post @ [list])) matched s
            = Some (matching_waiters ev fb io_event post,
                    fold (\<lambda>w m. m OR (ev w AND io_event)) post matched, s')"
      "transfers s' = transfers s @ matching_waiters ev fb io_event post"
      "dll (links s') list zs" "saved \<notin> set (list # zs)"
      using Cons.IH[OF d' s' sub inf lk, of matched] by blast
    have "EPoll_handle_loop fuel transfer io_event list saved (hd ((w # post) @ [list])) matched s
            = Some (matching_waiters ev fb io_event (w # post),
                    fold (\<lambda>w m. m OR (ev w AND io_event)) (w # post) matched, s')"
      unfolding k using True wl info t r(1) by (simp add: Let_def matching_waiters_Cons)
    moreover have "transfers s' = transfers s @ matching_waiters ev fb io_event (w # post)"
      using r(2) True by (simp add: matching_waiters_Cons)
    ultimately show ?thesis using r(3,4) by blast
  next
    case False
    have fr: "saved \<notin> set (list # pre @ w # post)" using Cons.prems(2) by simp
    obtain s1 where a: "list_append w saved s = Some s1"
      "dll (links s1) list (pre @ saved # w # post)" "s1 = s\<lparr>links := links s1\<rparr>"
      using list_append_dll[OF Cons.prems(1) fr] by blast
    have i1: "waiting_events s1 = waiting_events s" "waiting_fiber s1 = waiting_fiber s"
      "transfers s1 = transfers s"
      by (subst a(3), simp)+
    have inf1: "\<forall>m \<in> set (w # post). waiting_events s1 m = ev m \<and> waiting_fiber s1 m = fb m"
      using Cons.prems(4) i1 by simp
    obtain s2 pre' where tr: "transfer (fb w) (ev w AND io_event) s1 = Some s2"
      "dll (links s2) list (pre' @ saved # post)"
      "\<forall>m \<in> set post. waiting_events s2 m = ev m \<and> waiting_fiber s2 m = fb m"
      "transfers s2 = transfers s1 @ [(fb w, ev w AND io_event)]"
      using H[unfolded resumed_fiber_unlinks_def, rule_format, of w post s1 pre]
        Cons.prems(3) a(2) inf1 False by blast
    have t2: "tail (links s2 saved) = Some (hd (post @ [list]))"
      using dll_tail_at[OF tr(2)] .
    obtain s3 where p: "list_pop saved s2 = Some s3" "dll (links s3) list (pre' @ post)"
      "s3 = s2\<lparr>links := links s3\<rparr>"
      using list_pop_dll[OF tr(2)] by blast
    have i3: "waiting_events s3 = waiting_events s2" "waiting_fiber s3 = waiting_fiber s2"
      "transfers s3 = transfers s2"
      by (subst p(3), simp)+
    have inf3: "\<forall>m \<in> set post. waiting_events s3 m = ev m \<and> waiting_fiber s3 m = fb m"
      using tr(3) i3 by simp
    have "distinct (list # pre' @ saved # post)" using tr(2) by (simp add: dll_def)
    then have s3: "saved \<notin> set (list # pre' @ post)" by auto
    have sub: "set post \<subseteq> set ws" using Cons.prems(3) by auto
    obtain s' zs where r:
      "EPoll_handle_loop k transfer io_event list saved (hd (post @ [list]))
            (matched OR (ev w AND io_event)) s3
            = Some (matching_waiters ev fb io_event post,
                    fold (\<lambda>w m. m OR (ev w AND io_event)) post (matched OR (ev w AND io_event)), s')"
      "transfers s' = transfers s3 @ matching_waiters ev fb io_event post"
      "dll (links s') list zs" "saved \<notin> set (list # zs)"
      using Cons.IH[OF p(2) s3 sub inf3 lk, of "matched OR (ev w AND io_event)"] by blast
    have "EPoll_handle_loop fuel transfer io_event list saved (hd ((w # post) @ [list])) matched s
            = Some (matching_waiters ev fb io_event (w # post),
                    fold (\<lambda>w m. m OR (ev w AND io_event)) (w # post) matched, s')"
      unfolding k using False wl info a(1) i1 tr(1) t2 p(1) r(1)
      by (simp add: Let_def matching_waiters_Cons)
    moreover have "transfers s' = transfers s @ matching_waiters ev fb io_event (w # post)"
      using r(2) i3 tr(4) i1 False by (simp add: matching_waiters_Cons)
    ultimately show ?thesis using r(3,4) by blast
  qed
qed

lemma KQueue_handle_loop_EPoll:
  "KQueue_handle_loop fuel transfer io_event list saved node s =
     map_option (\<lambda>(r, m, s'). (r, s'))
       (EPoll_handle_loop fuel transfer io_event list saved node matched s)"
proof (induction fuel arbitrary: node matched s)
  case 0
  show ?case by simp
next
  case (Suc fuel)
  show ?case
    by (auto simp: Suc.IH[of _ _ "matched OR (waiting_events s node AND io_event)"] Suc.IH[of _ _ matched]
        Let_def option.map_comp comp_def split: option.splits prod.splits intro!: option.map_cong0)
qed

lemma unlinks_keeps_cursor:
  fixes transfer :: "fiber \<Rightarrow> events \<Rightarrow> 'a selector_scheme \<Rightarrow> 'a selector_scheme option"
  assumes "resumed_fiber_unlinks transfer list saved ws ev fb io_event"
  shows "resumed_fiber_keeps_cursor transfer list saved {} ws ev fb io_event"
  unfolding resumed_fiber_keeps_cursor_def parked_on_empty
proof (intro allI impI)
  fix s :: "'a selector_scheme" and pre w post
  assume a: "set (w # post) \<subseteq> set ws \<and> dll (links s) list (pre @ saved # w # post)
       \<and> (\<forall>m \<in> set (w # post). waiting_events s m = ev m \<and> waiting_fiber s m = fb m)
       \<and> ev w AND io_event \<noteq> 0"
  obtain s' pre' where "transfer (fb w) (ev w AND io_event) s = Some s'"
     "dll (links s') list (pre' @ saved # post)"
     "\<forall>m \<in> set post. waiting_events s' m = ev m \<and> waiting_fiber s' m = fb m"
     "transfers s' = transfers s @ [(fb w, ev w AND io_event)]"
    using assms[unfolded resumed_fiber_unlinks_def, rule_format, OF a] by blast
  then show "\<exists>s' pre' post'. transfer (fb w) (ev w AND io_event) s = Some s'
      \<and> dll (links s') list (pre' @ saved # post') \<and> subseq post' post
      \<and> (\<forall>m \<in> set post'. waiting_events s' m = ev m \<and> waiting_fiber s' m = fb m)
      \<and> transfers s' = transfers s @ [(fb w, ev w AND io_event)]"
    by (intro exI[of _ s'] exI[of _ pre'] exI[of _ post]) simp
qed

lemma io_wait_frame:
  assumes "IO_Event_Selector_EPoll_io_wait c f d e w st = Some p" "m \<noteq> w"
  shows "waiting_events (progress_state p) m = waiting_events st m
       \<and> waiting_fiber (progress_state p) m = waiting_fiber st m"
  using assms
  by (auto simp: IO_Event_Selector_EPoll_io_wait_def progress_state_def waiting_init_def call_def
      list_prepend_def Let_def epoll_ctl_done_def
      split: sum.splits if_splits option.splits)

lemma io_wait_transfers:
  assumes "IO_Event_Selector_EPoll_io_wait c f d e w st = Some p"
  shows "transfers (progress_state p) = transfers st"
  using assms
  by (auto simp: IO_Event_Selector_EPoll_io_wait_def progress_state_def waiting_init_def call_def
      list_prepend_def Let_def epoll_ctl_done_def
      split: sum.splits if_splits option.splits epoll_op.splits)

lemma leave_unlinks:
  assumes l: "dll (links s) list (pre @ saved # w # post)"
    and i: "\<forall>m \<in> set post. waiting_events s m = ev m \<and> waiting_fiber s m = fb m"
  shows "\<exists>s'. io_wait_ensure w s = Some s' \<and> dll (links s') list (pre @ saved # post)
          \<and> (\<forall>m \<in> set post. waiting_events s' m = ev m \<and> waiting_fiber s' m = fb m)
          \<and> s' = s\<lparr>links := links s'\<rparr>"
proof -
  have l': "dll (links s) list ((pre @ [saved]) @ w # post)" using l by simp
  obtain s' where s: "io_wait_ensure w s = Some s'" "dll (links s') list ((pre @ [saved]) @ post)"
    "s' = s\<lparr>links := links s'\<rparr>"
    using io_wait_ensure_unlinks[OF l'] by blast
  have "waiting_events s' = waiting_events s" "waiting_fiber s' = waiting_fiber s"
    by (subst s(3), simp)+
  then have "\<forall>m \<in> set post. waiting_events s' m = ev m \<and> waiting_fiber s' m = fb m"
    using i by simp
  then show ?thesis using s by (intro exI[of _ s']) simp
qed

lemma EPoll_leave_step:
  "EPoll_wait_step (Leave_io_wait r w) s = io_wait_ensure w s"
  by (simp add: IO_Event_Selector_EPoll_io_wait_resumed_def option.map_comp comp_def option.map_ident)

lemma KQueue_leave_step:
  "KQueue_wait_step (Leave_io_wait r w) s = io_wait_ensure w s"
  by (simp add: IO_Event_Selector_KQueue_io_wait_resumed_def option.map_comp comp_def option.map_ident)

lemma KQueue_fiber_transfer_unlinks:
  assumes sc: "\<And>w arg. w \<in> set ws \<Longrightarrow> script (fb w) arg = [Leave_io_wait (Resume (Integer arg)) w]"
  shows "resumed_fiber_unlinks (KQueue_fiber_transfer script) list saved ws ev fb E"
  unfolding resumed_fiber_unlinks_def
proof (intro allI impI)
  fix s :: kqueue and pre w post
  assume a: "set (w # post) \<subseteq> set ws \<and> dll (links s) list (pre @ saved # w # post)
       \<and> (\<forall>m \<in> set (w # post). waiting_events s m = ev m \<and> waiting_fiber s m = fb m)
       \<and> ev w AND E \<noteq> 0"
  define s0 where "s0 = s\<lparr>transfers := transfers s @ [(fb w, ev w AND E)]\<rparr>"
  from a have w: "w \<in> set ws" and l: "dll (links s0) list (pre @ saved # w # post)"
    and i: "\<forall>m \<in> set post. waiting_events s0 m = ev m \<and> waiting_fiber s0 m = fb m"
    by (auto simp: s0_def)
  obtain s' where s: "io_wait_ensure w s0 = Some s'" "dll (links s') list (pre @ saved # post)"
    "\<forall>m \<in> set post. waiting_events s' m = ev m \<and> waiting_fiber s' m = fb m"
    "s' = s0\<lparr>links := links s'\<rparr>"
    using leave_unlinks[OF l i] by blast
  have t: "transfers s' = transfers s @ [(fb w, ev w AND E)]"
    by (subst s(4)) (simp add: s0_def)
  have "KQueue_fiber_transfer script (fb w) (ev w AND E) s = Some s'"
    using s(1)
    by (simp add: KQueue_fiber_transfer_def sc[OF w] KQueue_leave_step s0_def
        del: KQueue_wait_step.simps)
  then show "\<exists>s' pre'. KQueue_fiber_transfer script (fb w) (ev w AND E) s = Some s'
     \<and> dll (links s') list (pre' @ saved # post)
     \<and> (\<forall>m \<in> set post. waiting_events s' m = ev m \<and> waiting_fiber s' m = fb m)
     \<and> transfers s' = transfers s @ [(fb w, ev w AND E)]"
    using s(2,3) t by blast
qed

lemma EPoll_fiber_transfer_unlinks:
  assumes d: "0 \<le> d"
    and sc: "\<And>w arg. w \<in> set ws \<Longrightarrow>
       script (fb w) arg = [Leave_io_wait (Resume (Integer arg)) w]
       \<or> (\<exists>e. script (fb w) arg =
             [Leave_io_wait (Resume (Integer arg)) w, Enter_io_wait None (fb w) d e w])"
  shows "resumed_fiber_unlinks (EPoll_fiber_transfer script) (Descriptor_list d) saved ws ev fb E"
  unfolding resumed_fiber_unlinks_def
proof (intro allI impI)
  fix s :: epoll and pre w post
  assume a: "set (w # post) \<subseteq> set ws \<and> dll (links s) (Descriptor_list d) (pre @ saved # w # post)
       \<and> (\<forall>m \<in> set (w # post). waiting_events s m = ev m \<and> waiting_fiber s m = fb m)
       \<and> ev w AND E \<noteq> 0"
  define s0 where "s0 = s\<lparr>transfers := transfers s @ [(fb w, ev w AND E)]\<rparr>"
  from a have w: "w \<in> set ws" and l: "dll (links s0) (Descriptor_list d) (pre @ saved # w # post)"
    and i: "\<forall>m \<in> set post. waiting_events s0 m = ev m \<and> waiting_fiber s0 m = fb m"
    by (auto simp: s0_def)
  obtain s1 where s: "io_wait_ensure w s0 = Some s1"
    "dll (links s1) (Descriptor_list d) (pre @ saved # post)"
    "\<forall>m \<in> set post. waiting_events s1 m = ev m \<and> waiting_fiber s1 m = fb m"
    "s1 = s0\<lparr>links := links s1\<rparr>"
    using leave_unlinks[OF l i] by blast
  have t1: "transfers s1 = transfers s @ [(fb w, ev w AND E)]"
    by (subst s(4)) (simp add: s0_def)
  have dist: "distinct (Descriptor_list d # pre @ saved # w # post)" using l by (simp add: dll_def)
  then have fresh: "w \<notin> set (Descriptor_list d # pre @ saved # post)" by auto
  have wp: "w \<notin> set post" using dist by auto
  show "\<exists>s' pre'. EPoll_fiber_transfer script (fb w) (ev w AND E) s = Some s'
     \<and> dll (links s') (Descriptor_list d) (pre' @ saved # post)
     \<and> (\<forall>m \<in> set post. waiting_events s' m = ev m \<and> waiting_fiber s' m = fb m)
     \<and> transfers s' = transfers s @ [(fb w, ev w AND E)]"
  proof (cases "script (fb w) (ev w AND E) = [Leave_io_wait (Resume (Integer (ev w AND E))) w]")
    case True
    have "EPoll_fiber_transfer script (fb w) (ev w AND E) s = Some s1"
      using s(1)
      by (simp add: EPoll_fiber_transfer_def True EPoll_leave_step s0_def del: EPoll_wait_step.simps)
    then show ?thesis using s(2,3) t1 by blast
  next
    case False
    then obtain e where e: "script (fb w) (ev w AND E) =
        [Leave_io_wait (Resume (Integer (ev w AND E))) w, Enter_io_wait None (fb w) d e w]"
      using sc[OF w, of "ev w AND E"] by blast
    have "\<exists>s2. IO_Event_Selector_EPoll_io_wait None (fb w) d e w s1 = Some (Suspended s2)
           \<and> dll (links s2) (Descriptor_list d) (w # pre @ saved # post)"
    proof (cases "descriptor_events s1 d AND e = e")
      case True
      then show ?thesis using EPoll_io_wait_covered[OF d s(2) fresh True, of None "fb w"] by blast
    next
      case False
      then show ?thesis using EPoll_io_wait_armed[OF d s(2) fresh False, of "fb w"] by blast
    qed
    then obtain s2 where s2: "IO_Event_Selector_EPoll_io_wait None (fb w) d e w s1 = Some (Suspended s2)"
      "dll (links s2) (Descriptor_list d) ((w # pre) @ saved # post)" by auto
    have fr: "\<forall>m \<in> set post. waiting_events s2 m = ev m \<and> waiting_fiber s2 m = fb m"
    proof
      fix m assume m: "m \<in> set post"
      then have "m \<noteq> w" using wp by auto
      then have "waiting_events (progress_state (Suspended s2)) m = waiting_events s1 m
        \<and> waiting_fiber (progress_state (Suspended s2)) m = waiting_fiber s1 m"
        using io_wait_frame[OF s2(1)] by blast
      then show "waiting_events s2 m = ev m \<and> waiting_fiber s2 m = fb m"
        using s(3) m by (simp add: progress_state_def)
    qed
    have t2: "transfers s2 = transfers s @ [(fb w, ev w AND E)]"
      using io_wait_transfers[OF s2(1)] t1 by (simp add: progress_state_def)
    have "EPoll_fiber_transfer script (fb w) (ev w AND E) s = Some s2"
      using s(1) s2(1)
      by (simp add: EPoll_fiber_transfer_def e EPoll_leave_step progress_state_def s0_def
          del: EPoll_wait_step.simps(1))
    then show ?thesis using s2(2) fr t2 by blast
  qed
qed

lemma matching_waiters_arguments:
  "\<forall>(f, M) \<in> set (matching_waiters ev fb E ws).
      M \<noteq> 0 \<and> M AND E = M \<and> (\<exists>w \<in> set ws. f = fb w \<and> M = ev w AND E \<and> M AND ev w = M)"
  by (auto simp: matching_waiters_def ac_simps)

lemma rearm_links: "links (EPoll_handle_rearm E m fd d st) = links st"
  by (simp add: EPoll_handle_rearm_def call_def epoll_ctl_done_def Let_def)

lemma rearm_transfers: "transfers (EPoll_handle_rearm E m fd d st) = transfers st"
  by (simp add: EPoll_handle_rearm_def call_def epoll_ctl_done_def Let_def)

lemma KQueue_fiber_transfer_keeps_cursor:
  assumes sc: "\<And>w arg. w \<in> set ws \<Longrightarrow> script (fb w) arg = [Leave_io_wait (Resume (Integer arg)) w]"
  shows "resumed_fiber_keeps_cursor (KQueue_fiber_transfer script) list saved W ws ev fb E"
  unfolding resumed_fiber_keeps_cursor_def
proof (intro allI impI)
  fix s :: kqueue and pre w post
  assume a: "set (w # post) \<subseteq> set ws \<and> parked_on (links s) list W (pre @ saved # w # post)
       \<and> (\<forall>m \<in> set (w # post). waiting_events s m = ev m \<and> waiting_fiber s m = fb m)
       \<and> ev w AND E \<noteq> 0"
  define s0 where "s0 = s\<lparr>transfers := transfers s @ [(fb w, ev w AND E)]\<rparr>"
  from a have w: "w \<in> set ws" and l: "parked_on (links s0) list W ((pre @ [saved]) @ w # post)"
    and i: "\<forall>m \<in> set post. waiting_events s0 m = ev m \<and> waiting_fiber s0 m = fb m"
    by (auto simp: s0_def)
  obtain s' where s: "list_pop w s0 = Some s'" "parked_on (links s') list W ((pre @ [saved]) @ post)"
    "s' = s0\<lparr>links := links s'\<rparr>"
    using list_pop_parked[OF l] by blast
  have t: "transfers s' = transfers s @ [(fb w, ev w AND E)]"
    "waiting_events s' = waiting_events s0" "waiting_fiber s' = waiting_fiber s0"
    by (subst s(3), simp add: s0_def)+
  have "KQueue_fiber_transfer script (fb w) (ev w AND E) s = Some s'"
    using s(1)
    by (simp add: KQueue_fiber_transfer_def sc[OF w] KQueue_leave_step s0_def io_wait_ensure_def
        del: KQueue_wait_step.simps)
  then show "\<exists>s' pre' post'. KQueue_fiber_transfer script (fb w) (ev w AND E) s = Some s'
     \<and> parked_on (links s') list W (pre' @ saved # post') \<and> subseq post' post
     \<and> (\<forall>m \<in> set post'. waiting_events s' m = ev m \<and> waiting_fiber s' m = fb m)
     \<and> transfers s' = transfers s @ [(fb w, ev w AND E)]"
    using s(2) t i by (intro exI[of _ s'] exI[of _ pre] exI[of _ post]) simp
qed

lemma EPoll_fiber_transfer_keeps_cursor:
  assumes sc: "\<And>w arg. w \<in> set ws \<Longrightarrow> script (fb w) arg = [Leave_io_wait (Resume (Integer arg)) w]"
  shows "resumed_fiber_keeps_cursor (EPoll_fiber_transfer script) list saved W ws ev fb E"
  unfolding resumed_fiber_keeps_cursor_def
proof (intro allI impI)
  fix s :: epoll and pre w post
  assume a: "set (w # post) \<subseteq> set ws \<and> parked_on (links s) list W (pre @ saved # w # post)
       \<and> (\<forall>m \<in> set (w # post). waiting_events s m = ev m \<and> waiting_fiber s m = fb m)
       \<and> ev w AND E \<noteq> 0"
  define s0 where "s0 = s\<lparr>transfers := transfers s @ [(fb w, ev w AND E)]\<rparr>"
  from a have w: "w \<in> set ws" and l: "parked_on (links s0) list W ((pre @ [saved]) @ w # post)"
    and i: "\<forall>m \<in> set post. waiting_events s0 m = ev m \<and> waiting_fiber s0 m = fb m"
    by (auto simp: s0_def)
  obtain s' where s: "list_pop w s0 = Some s'" "parked_on (links s') list W ((pre @ [saved]) @ post)"
    "s' = s0\<lparr>links := links s'\<rparr>"
    using list_pop_parked[OF l] by blast
  have t: "transfers s' = transfers s @ [(fb w, ev w AND E)]"
    "waiting_events s' = waiting_events s0" "waiting_fiber s' = waiting_fiber s0"
    by (subst s(3), simp add: s0_def)+
  have "EPoll_fiber_transfer script (fb w) (ev w AND E) s = Some s'"
    using s(1)
    by (simp add: EPoll_fiber_transfer_def sc[OF w] EPoll_leave_step s0_def io_wait_ensure_def
        del: EPoll_wait_step.simps)
  then show "\<exists>s' pre' post'. EPoll_fiber_transfer script (fb w) (ev w AND E) s = Some s'
     \<and> parked_on (links s') list W (pre' @ saved # post') \<and> subseq post' post
     \<and> (\<forall>m \<in> set post'. waiting_events s' m = ev m \<and> waiting_fiber s' m = fb m)
     \<and> transfers s' = transfers s @ [(fb w, ev w AND E)]"
    using s(2) t i by (intro exI[of _ s'] exI[of _ pre] exI[of _ post]) simp
qed

lemma cancel_waiters_parked:
  assumes sw: "saved \<notin> W"
  shows "set ms \<subseteq> W \<Longrightarrow> parked_on (links s) list W (pre @ saved # post)
    \<Longrightarrow> \<exists>s' pre' post'. cancel_waiters ms s = Some s'
          \<and> parked_on (links s') list W (pre' @ saved # post') \<and> subseq post' post
          \<and> waiting_events s' = waiting_events s \<and> waiting_fiber s' = waiting_fiber s
          \<and> transfers s' = transfers s"
proof (induction ms arbitrary: s pre post)
  case Nil
  then show ?case by (intro exI[of _ s] exI[of _ pre] exI[of _ post]) simp
next
  case (Cons m ms)
  have mW: "m \<in> W" and msW: "set ms \<subseteq> W" using Cons.prems(1) by auto
  show ?case
  proof (cases "tail (links s m) = None")
    case True
    then show ?thesis using Cons.IH[OF msW Cons.prems(2)] by simp
  next
    case False
    have "m \<in> set (pre @ saved # post)"
    proof (rule ccontr)
      assume "m \<notin> set (pre @ saved # post)"
      then have "links s m = \<lparr>head = None, tail = None\<rparr>"
        using Cons.prems(2) mW by (simp add: parked_on_def)
      then show False using False by simp
    qed
    moreover have "m \<noteq> saved" using mW sw by auto
    ultimately consider (pre) "m \<in> set pre" | (post) "m \<in> set post" by auto
    then obtain s1 pre1 post1 where s1: "list_pop m s = Some s1"
      "parked_on (links s1) list W (pre1 @ saved # post1)" "subseq post1 post"
      "s1 = s\<lparr>links := links s1\<rparr>"
    proof cases
      case pre
      then obtain p1 p2 where sp: "pre = p1 @ m # p2" by (auto dest: split_list)
      have P: "parked_on (links s) list W (p1 @ m # (p2 @ saved # post))"
        using Cons.prems(2) sp by simp
      obtain s1 where p: "list_pop m s = Some s1"
        "parked_on (links s1) list W (p1 @ (p2 @ saved # post))" "s1 = s\<lparr>links := links s1\<rparr>"
        using list_pop_parked[OF P] by blast
      have "parked_on (links s1) list W ((p1 @ p2) @ saved # post)" using p(2) by simp
      then show ?thesis using that[of s1 "p1 @ p2" post, OF p(1) _ _ p(3)] by blast
    next
      case post
      then obtain q1 q2 where sp: "post = q1 @ m # q2" by (auto dest: split_list)
      have P: "parked_on (links s) list W ((pre @ saved # q1) @ m # q2)"
        using Cons.prems(2) sp by simp
      obtain s1 where p: "list_pop m s = Some s1"
        "parked_on (links s1) list W ((pre @ saved # q1) @ q2)" "s1 = s\<lparr>links := links s1\<rparr>"
        using list_pop_parked[OF P] by blast
      have 1: "parked_on (links s1) list W (pre @ saved # (q1 @ q2))" using p(2) by simp
      have "subseq q2 (m # q2)" by (rule list_emb_Cons) simp
      then have 2: "subseq (q1 @ q2) post" unfolding sp by (intro list_emb_append_mono) simp_all
      show ?thesis using that[of s1 pre "q1 @ q2", OF p(1) 1 2 p(3)] .
    qed
    have f1: "waiting_events s1 = waiting_events s" "waiting_fiber s1 = waiting_fiber s"
      "transfers s1 = transfers s"
      by (subst s1(4), simp)+
    obtain s' pre' post' where r: "cancel_waiters ms s1 = Some s'"
      "parked_on (links s') list W (pre' @ saved # post')" "subseq post' post1"
      "waiting_events s' = waiting_events s1" "waiting_fiber s' = waiting_fiber s1"
      "transfers s' = transfers s1"
      using Cons.IH[OF msW s1(2)] by blast
    have "cancel_waiters (m # ms) s = Some s'"
      using False s1(1) r(1) by (auto simp: io_wait_ensure_def)
    moreover have "subseq post' post" using r(3) s1(3) by (rule subseq_order.trans)
    ultimately show ?thesis using r(2,4,5,6) f1
      by (intro exI[of _ s'] exI[of _ pre'] exI[of _ post']) simp
  qed
qed

lemma cancelling_transfer_keeps_cursor:
  fixes transfer :: "fiber \<Rightarrow> events \<Rightarrow> 'a selector_scheme \<Rightarrow> 'a selector_scheme option"
  assumes H: "resumed_fiber_keeps_cursor transfer list saved W ws ev fb E"
    and c: "\<And>f. set (cancels f) \<subseteq> W" and sw: "saved \<notin> W"
  shows "resumed_fiber_keeps_cursor (cancelling_transfer cancels transfer) list saved W ws ev fb E"
  unfolding resumed_fiber_keeps_cursor_def
proof (intro allI impI)
  fix s :: "'a selector_scheme" and pre w post
  assume a: "set (w # post) \<subseteq> set ws \<and> parked_on (links s) list W (pre @ saved # w # post)
       \<and> (\<forall>m \<in> set (w # post). waiting_events s m = ev m \<and> waiting_fiber s m = fb m)
       \<and> ev w AND E \<noteq> 0"
  obtain s1 pre1 post1 where t: "transfer (fb w) (ev w AND E) s = Some s1"
    "parked_on (links s1) list W (pre1 @ saved # post1)" "subseq post1 post"
    "\<forall>m \<in> set post1. waiting_events s1 m = ev m \<and> waiting_fiber s1 m = fb m"
    "transfers s1 = transfers s @ [(fb w, ev w AND E)]"
    using H[unfolded resumed_fiber_keeps_cursor_def, rule_format, OF a] by blast
  obtain s' pre' post' where r: "cancel_waiters (cancels (fb w)) s1 = Some s'"
    "parked_on (links s') list W (pre' @ saved # post')" "subseq post' post1"
    "waiting_events s' = waiting_events s1" "waiting_fiber s' = waiting_fiber s1"
    "transfers s' = transfers s1"
    using cancel_waiters_parked[OF sw c t(2)] by blast
  have 1: "cancelling_transfer cancels transfer (fb w) (ev w AND E) s = Some s'"
    using t(1) r(1) by (simp add: cancelling_transfer_def)
  have 2: "subseq post' post" using r(3) t(3) by (rule subseq_order.trans)
  have "set post' \<subseteq> set post1" using r(3) by (auto dest: list_emb_set)
  then have 3: "\<forall>m \<in> set post'. waiting_events s' m = ev m \<and> waiting_fiber s' m = fb m"
    using t(4) r(4,5) by auto
  show "\<exists>s' pre' post'. cancelling_transfer cancels transfer (fb w) (ev w AND E) s = Some s'
     \<and> parked_on (links s') list W (pre' @ saved # post') \<and> subseq post' post
     \<and> (\<forall>m \<in> set post'. waiting_events s' m = ev m \<and> waiting_fiber s' m = fb m)
     \<and> transfers s' = transfers s @ [(fb w, ev w AND E)]"
    using 1 r(2) 2 3 r(6) t(5) by (intro exI[of _ s'] exI[of _ pre'] exI[of _ post']) simp
qed

lemma EPoll_handle_dispatch:
  assumes d: "0 \<le> d"
    and l: "dll (links st) (Descriptor_list d) ws"
    and f: "saved \<notin> set (Descriptor_list d # ws)"
    and H: "resumed_fiber_unlinks transfer (Descriptor_list d) saved ws
              (waiting_events st) (waiting_fiber st) (events_from_epoll_flags flags)"
    and fuel: "length ws < fuel"
  shows "\<exists>st' zs. IO_Event_Selector_EPoll_handle fuel transfer saved d flags st
           = Some (Inr (matching_waiters (waiting_events st) (waiting_fiber st)
                          (events_from_epoll_flags flags) ws), st')
         \<and> transfers st' = transfers st
              @ matching_waiters (waiting_events st) (waiting_fiber st) (events_from_epoll_flags flags) ws
         \<and> dll (links st') (Descriptor_list d) zs \<and> saved \<notin> set zs"
proof -
  define st0 where "st0 = st\<lparr>links := (links st)(saved := \<lparr>head = None, tail = None\<rparr>)\<rparr>"
  have "dll (links st0) (Descriptor_list d) ws = dll (links st) (Descriptor_list d) ws"
    using f by (intro dll_cong) (auto simp: st0_def)
  then have l0: "dll (links st0) (Descriptor_list d) ([] @ ws)" using l by simp
  have f0: "saved \<notin> set (Descriptor_list d # [] @ ws)" using f by simp
  have i0: "\<forall>m \<in> set ws. waiting_events st0 m = waiting_events st m
      \<and> waiting_fiber st0 m = waiting_fiber st m"
    by (simp add: st0_def)
  have t0: "tail (links st0 (Descriptor_list d)) = Some (hd (ws @ [Descriptor_list d]))"
    using l0 dll_list_tail[of "links st0" "Descriptor_list d" ws] by simp
  have tr0: "transfers st0 = transfers st" by (simp add: st0_def)
  obtain s' zs where r:
    "EPoll_handle_loop fuel transfer (events_from_epoll_flags flags) (Descriptor_list d) saved
        (hd (ws @ [Descriptor_list d])) 0 st0
      = Some (matching_waiters (waiting_events st) (waiting_fiber st) (events_from_epoll_flags flags) ws,
              fold (\<lambda>w m. m OR (waiting_events st w AND events_from_epoll_flags flags)) ws 0, s')"
    "transfers s' = transfers st0
       @ matching_waiters (waiting_events st) (waiting_fiber st) (events_from_epoll_flags flags) ws"
    "dll (links s') (Descriptor_list d) zs" "saved \<notin> set (Descriptor_list d # zs)"
    using EPoll_handle_loop_walk[OF H l0 f0 subset_refl i0 fuel, of 0] by blast
  define st' where "st' = EPoll_handle_rearm (events_from_epoll_flags flags)
      (fold (\<lambda>w m. m OR (waiting_events st w AND events_from_epoll_flags flags)) ws 0) d d s'"
  have "IO_Event_Selector_EPoll_handle fuel transfer saved d flags st
           = Some (Inr (matching_waiters (waiting_events st) (waiting_fiber st)
                          (events_from_epoll_flags flags) ws), st')"
    unfolding IO_Event_Selector_EPoll_handle_def Let_def st0_def[symmetric] st'_def
    using t0 r(1) by (simp add: lookup_nonneg[OF d])
  moreover have "transfers st' = transfers st
       @ matching_waiters (waiting_events st) (waiting_fiber st) (events_from_epoll_flags flags) ws"
    using r(2) tr0 by (simp add: st'_def rearm_transfers)
  moreover have "dll (links st') (Descriptor_list d) zs" using r(3) by (simp add: st'_def rearm_links)
  ultimately show ?thesis using r(4) by auto
qed

lemma parked_on_reset:
  assumes "parked_on h list W ws" "saved \<notin> set (list # ws)" "saved \<notin> W"
  shows "parked_on (h(saved := \<lparr>head = None, tail = None\<rparr>)) list W ws"
proof -
  have "dll (h(saved := \<lparr>head = None, tail = None\<rparr>)) list ws = dll h list ws"
    using assms(2) by (intro dll_cong) auto
  then show ?thesis using assms by (auto simp: parked_on_def)
qed

lemma KQueue_handle_dispatch:
  assumes l: "dll (links st) (Descriptor_list d) ws"
    and f: "saved \<notin> set (Descriptor_list d # ws)"
    and r: "descriptor_ready st d \<noteq> 0"
    and H: "resumed_fiber_unlinks transfer (Descriptor_list d) saved ws
              (waiting_events st) (waiting_fiber st) (descriptor_ready st d)"
    and fuel: "length ws < fuel"
  shows "\<exists>st' zs. IO_Event_Selector_KQueue_handle fuel transfer saved ident d st
           = Some (matching_waiters (waiting_events st) (waiting_fiber st) (descriptor_ready st d) ws, st')
         \<and> transfers st' = transfers st
              @ matching_waiters (waiting_events st) (waiting_fiber st) (descriptor_ready st d) ws
         \<and> dll (links st') (Descriptor_list d) zs \<and> saved \<notin> set zs"
proof -
  define st0 where "st0 = st\<lparr>descriptor_ready := (descriptor_ready st)(d := 0)\<rparr>"
  define st1 where "st1 = st0\<lparr>links := (links st0)(saved := \<lparr>head = None, tail = None\<rparr>)\<rparr>"
  have "dll (links st1) (Descriptor_list d) ws = dll (links st) (Descriptor_list d) ws"
    using f by (intro dll_cong) (auto simp: st1_def st0_def)
  then have l0: "dll (links st1) (Descriptor_list d) ([] @ ws)" using l by simp
  have f0: "saved \<notin> set (Descriptor_list d # [] @ ws)" using f by simp
  have i0: "\<forall>m \<in> set ws. waiting_events st1 m = waiting_events st m
      \<and> waiting_fiber st1 m = waiting_fiber st m"
    by (simp add: st1_def st0_def)
  have t0: "tail (links st1 (Descriptor_list d)) = Some (hd (ws @ [Descriptor_list d]))"
    using l0 dll_list_tail[of "links st1" "Descriptor_list d" ws] by simp
  have tr0: "transfers st1 = transfers st" by (simp add: st1_def st0_def)
  obtain s' zs where e:
    "EPoll_handle_loop fuel transfer (descriptor_ready st d) (Descriptor_list d) saved
        (hd (ws @ [Descriptor_list d])) 0 st1
      = Some (matching_waiters (waiting_events st) (waiting_fiber st) (descriptor_ready st d) ws,
              fold (\<lambda>w m. m OR (waiting_events st w AND descriptor_ready st d)) ws 0, s')"
    "transfers s' = transfers st1
       @ matching_waiters (waiting_events st) (waiting_fiber st) (descriptor_ready st d) ws"
    "dll (links s') (Descriptor_list d) zs" "saved \<notin> set (Descriptor_list d # zs)"
    using EPoll_handle_loop_walk[OF H l0 f0 subset_refl i0 fuel, of 0] by blast
  have "KQueue_handle_loop fuel transfer (descriptor_ready st d) (Descriptor_list d) saved
        (hd (ws @ [Descriptor_list d])) st1
      = Some (matching_waiters (waiting_events st) (waiting_fiber st) (descriptor_ready st d) ws, s')"
    unfolding KQueue_handle_loop_EPoll[of _ _ _ _ _ _ _ 0] e(1) by simp
  then have "IO_Event_Selector_KQueue_handle fuel transfer saved ident d st
           = Some (matching_waiters (waiting_events st) (waiting_fiber st) (descriptor_ready st d) ws, s')"
    unfolding IO_Event_Selector_KQueue_handle_def Let_def st0_def[symmetric] st1_def[symmetric]
    using t0 r by simp
  then show ?thesis using e(2,3,4) tr0 by auto
qed

lemma EPoll_handle_turn:
  assumes d: "0 \<le> d"
    and l: "parked_on (links st) (Descriptor_list d) W ws"
    and f: "saved \<notin> set (Descriptor_list d # ws) \<union> W"
    and H: "resumed_fiber_keeps_cursor transfer (Descriptor_list d) saved W ws
              (waiting_events st) (waiting_fiber st) (events_from_epoll_flags flags)"
    and fuel: "length ws < fuel"
  shows "\<exists>resumed m s1 st' zs.
         IO_Event_Selector_EPoll_handle fuel transfer saved d flags st = Some (Inr resumed, st')
         \<and> st' = EPoll_handle_rearm (events_from_epoll_flags flags) m d d s1
         \<and> resumed_in_turn transfer (Descriptor_list d) saved (events_from_epoll_flags flags) ws
              (st\<lparr>links := (links st)(saved := \<lparr>head = None, tail = None\<rparr>)\<rparr>) resumed s1
         \<and> subseq resumed (matching_waiters (waiting_events st) (waiting_fiber st)
                              (events_from_epoll_flags flags) ws)
         \<and> take 1 resumed = take 1 (matching_waiters (waiting_events st) (waiting_fiber st)
                              (events_from_epoll_flags flags) ws)
         \<and> (resumed_fiber_unlinks transfer (Descriptor_list d) saved ws
               (waiting_events st) (waiting_fiber st) (events_from_epoll_flags flags)
             \<longrightarrow> resumed = matching_waiters (waiting_events st) (waiting_fiber st)
                              (events_from_epoll_flags flags) ws)
         \<and> transfers st' = transfers st @ resumed
         \<and> dll (links st') (Descriptor_list d) zs \<and> saved \<notin> set zs"
proof -
  have f1: "saved \<notin> set (Descriptor_list d # ws)" and sw: "saved \<notin> W" using f by auto
  have dl: "dll (links st) (Descriptor_list d) ws" using l by (simp add: parked_on_def)
  define st0 where "st0 = st\<lparr>links := (links st)(saved := \<lparr>head = None, tail = None\<rparr>)\<rparr>"
  have l0: "parked_on (links st0) (Descriptor_list d) W ([] @ ws)"
    using parked_on_reset[OF l f1 sw] by (simp add: st0_def)
  have f0: "saved \<notin> set (Descriptor_list d # [] @ ws)" using f1 by simp
  have i0: "\<forall>m \<in> set ws. waiting_events st0 m = waiting_events st m
      \<and> waiting_fiber st0 m = waiting_fiber st m"
    by (simp add: st0_def)
  have "dll (links st0) (Descriptor_list d) ws" using l0 by (simp add: parked_on_def)
  then have t0: "tail (links st0 (Descriptor_list d)) = Some (hd (ws @ [Descriptor_list d]))"
    by (rule dll_list_tail)
  have tr0: "transfers st0 = transfers st" by (simp add: st0_def)
  obtain resumed m s1 zs where r:
    "EPoll_handle_loop fuel transfer (events_from_epoll_flags flags) (Descriptor_list d) saved
        (hd (ws @ [Descriptor_list d])) 0 st0
      = Some (resumed, m, s1)"
    "subseq resumed (matching_waiters (waiting_events st) (waiting_fiber st)
                       (events_from_epoll_flags flags) ws)"
    "take 1 resumed = take 1 (matching_waiters (waiting_events st) (waiting_fiber st)
                       (events_from_epoll_flags flags) ws)"
    "resumed_in_turn transfer (Descriptor_list d) saved (events_from_epoll_flags flags) ws st0
       resumed s1"
    "transfers s1 = transfers st0 @ resumed"
    "parked_on (links s1) (Descriptor_list d) W zs" "saved \<notin> set (Descriptor_list d # zs)"
    using EPoll_handle_loop_cursor[OF H sw l0 f0 subset_refl i0 fuel, of 0] by blast
  define st' where "st' = EPoll_handle_rearm (events_from_epoll_flags flags) m d d s1"
  have 1: "IO_Event_Selector_EPoll_handle fuel transfer saved d flags st = Some (Inr resumed, st')"
    unfolding IO_Event_Selector_EPoll_handle_def Let_def st0_def[symmetric] st'_def
    using t0 r(1) by (simp add: lookup_nonneg[OF d])
  have 2: "transfers st' = transfers st @ resumed"
    using r(5) tr0 by (simp add: st'_def rearm_transfers)
  have 3: "dll (links st') (Descriptor_list d) zs"
    using r(6) by (simp add: st'_def rearm_links parked_on_def)
  have 4: "saved \<notin> set zs" using r(7) by simp
  have 5: "resumed = matching_waiters (waiting_events st) (waiting_fiber st)
                              (events_from_epoll_flags flags) ws"
    if "resumed_fiber_unlinks transfer (Descriptor_list d) saved ws
               (waiting_events st) (waiting_fiber st) (events_from_epoll_flags flags)"
    using EPoll_handle_dispatch[OF d dl f1 that fuel] 1 by auto
  show ?thesis
    using 1 st'_def r(4)[unfolded st0_def] r(2,3) 5 2 3 4
    by (intro exI[of _ resumed] exI[of _ m] exI[of _ s1] exI[of _ st'] exI[of _ zs]) blast
qed

lemma KQueue_handle_turn:
  assumes l: "parked_on (links st) (Descriptor_list d) W ws"
    and f: "saved \<notin> set (Descriptor_list d # ws) \<union> W"
    and n: "descriptor_ready st d \<noteq> 0"
    and H: "resumed_fiber_keeps_cursor transfer (Descriptor_list d) saved W ws
              (waiting_events st) (waiting_fiber st) (descriptor_ready st d)"
    and fuel: "length ws < fuel"
  shows "\<exists>resumed st' zs.
         IO_Event_Selector_KQueue_handle fuel transfer saved ident d st = Some (resumed, st')
         \<and> resumed_in_turn transfer (Descriptor_list d) saved (descriptor_ready st d) ws
              (st\<lparr>descriptor_ready := (descriptor_ready st)(d := 0),
                  links := (links st)(saved := \<lparr>head = None, tail = None\<rparr>)\<rparr>) resumed st'
         \<and> subseq resumed (matching_waiters (waiting_events st) (waiting_fiber st)
                              (descriptor_ready st d) ws)
         \<and> take 1 resumed = take 1 (matching_waiters (waiting_events st) (waiting_fiber st)
                              (descriptor_ready st d) ws)
         \<and> (resumed_fiber_unlinks transfer (Descriptor_list d) saved ws
               (waiting_events st) (waiting_fiber st) (descriptor_ready st d)
             \<longrightarrow> resumed = matching_waiters (waiting_events st) (waiting_fiber st)
                              (descriptor_ready st d) ws)
         \<and> transfers st' = transfers st @ resumed
         \<and> dll (links st') (Descriptor_list d) zs \<and> saved \<notin> set zs"
proof -
  have f1: "saved \<notin> set (Descriptor_list d # ws)" and sw: "saved \<notin> W" using f by auto
  have dl: "dll (links st) (Descriptor_list d) ws" using l by (simp add: parked_on_def)
  define st1 where "st1 = st\<lparr>descriptor_ready := (descriptor_ready st)(d := 0),
      links := (links st)(saved := \<lparr>head = None, tail = None\<rparr>)\<rparr>"
  have l0: "parked_on (links st1) (Descriptor_list d) W ([] @ ws)"
    using parked_on_reset[OF l f1 sw] by (simp add: st1_def)
  have f0: "saved \<notin> set (Descriptor_list d # [] @ ws)" using f1 by simp
  have i0: "\<forall>m \<in> set ws. waiting_events st1 m = waiting_events st m
      \<and> waiting_fiber st1 m = waiting_fiber st m"
    by (simp add: st1_def)
  have "dll (links st1) (Descriptor_list d) ws" using l0 by (simp add: parked_on_def)
  then have t0: "tail (links st1 (Descriptor_list d)) = Some (hd (ws @ [Descriptor_list d]))"
    by (rule dll_list_tail)
  have tr0: "transfers st1 = transfers st" by (simp add: st1_def)
  obtain resumed m s' zs where e:
    "EPoll_handle_loop fuel transfer (descriptor_ready st d) (Descriptor_list d) saved
        (hd (ws @ [Descriptor_list d])) 0 st1
      = Some (resumed, m, s')"
    "subseq resumed (matching_waiters (waiting_events st) (waiting_fiber st) (descriptor_ready st d) ws)"
    "take 1 resumed
       = take 1 (matching_waiters (waiting_events st) (waiting_fiber st) (descriptor_ready st d) ws)"
    "resumed_in_turn transfer (Descriptor_list d) saved (descriptor_ready st d) ws st1 resumed s'"
    "transfers s' = transfers st1 @ resumed"
    "parked_on (links s') (Descriptor_list d) W zs" "saved \<notin> set (Descriptor_list d # zs)"
    using EPoll_handle_loop_cursor[OF H sw l0 f0 subset_refl i0 fuel, of 0] by blast
  have "KQueue_handle_loop fuel transfer (descriptor_ready st d) (Descriptor_list d) saved
        (hd (ws @ [Descriptor_list d])) st1
      = Some (resumed, s')"
    unfolding KQueue_handle_loop_EPoll[of _ _ _ _ _ _ _ 0] e(1) by simp
  then have 1: "IO_Event_Selector_KQueue_handle fuel transfer saved ident d st = Some (resumed, s')"
    unfolding IO_Event_Selector_KQueue_handle_def Let_def st1_def
    using t0[unfolded st1_def] n by simp
  have 2: "transfers s' = transfers st @ resumed" using e(5) tr0 by simp
  have 3: "dll (links s') (Descriptor_list d) zs" using e(6) by (simp add: parked_on_def)
  have 4: "saved \<notin> set zs" using e(7) by simp
  have 5: "resumed = matching_waiters (waiting_events st) (waiting_fiber st)
                              (descriptor_ready st d) ws"
    if "resumed_fiber_unlinks transfer (Descriptor_list d) saved ws
               (waiting_events st) (waiting_fiber st) (descriptor_ready st d)"
    using KQueue_handle_dispatch[OF dl f1 n that fuel, of ident] 1 by auto
  show ?thesis
    using 1 e(4)[unfolded st1_def] e(2,3) 5 2 3 4
    by (intro exI[of _ resumed] exI[of _ s'] exI[of _ zs]) blast
qed

lemma dll_three: "dll three_links (Descriptor_list 3) [Stack 1, Stack 2, Stack 3]"
  by (simp add: dll_def three_links_def EPoll_initial_def)

section \<open>The armed mask along a run\<close>

lemma grows_refl: "grows s s"
  by (simp add: grows_def mask_kept_def)

lemma grows_trans: "grows a b \<Longrightarrow> grows b c \<Longrightarrow> grows a c"
proof -
  assume ab: "grows a b" and bc: "grows b c"
  have "mask_kept a c"
    unfolding mask_kept_def
  proof
    fix d
    have 1: "descriptor_events a d AND descriptor_events b d = descriptor_events a d"
      and 2: "descriptor_events b d AND descriptor_events c d = descriptor_events b d"
      using ab bc by (simp_all add: grows_def mask_kept_def)
    have "descriptor_events a d AND descriptor_events c d
        = (descriptor_events a d AND descriptor_events b d) AND descriptor_events c d"
      by (simp only: 1)
    also have "\<dots> = descriptor_events a d AND (descriptor_events b d AND descriptor_events c d)"
      by (simp only: and.assoc)
    also have "\<dots> = descriptor_events a d" by (simp only: 1 2)
    finally show "descriptor_events a d AND descriptor_events c d = descriptor_events a d" .
  qed
  then show ?thesis using ab bc by (auto simp: grows_def)
qed

lemma grows_links: "grows s (s\<lparr>links := h\<rparr>)"
  by (simp add: grows_def mask_kept_def armed_nonzero_def)

lemma grows_same:
  "descriptor_events s' = descriptor_events s \<Longrightarrow> interest s' = interest s
   \<Longrightarrow> \<not> list_ex is_del (drop (length (calls s)) (calls s')) \<Longrightarrow> take (length (calls s)) (calls s') = calls s
   \<Longrightarrow> grows s s'"
proof -
  assume a: "descriptor_events s' = descriptor_events s" "interest s' = interest s"
    "\<not> list_ex is_del (drop (length (calls s)) (calls s'))" "take (length (calls s)) (calls s') = calls s"
  have "calls s' = calls s @ drop (length (calls s)) (calls s')"
    using a(4) append_take_drop_id[of "length (calls s)" "calls s'"] by simp
  then have "list_ex is_del (calls s') = list_ex is_del (calls s)"
    using a(3) by (metis list_ex_append)
  then show ?thesis using a(1,2) by (simp add: grows_def mask_kept_def armed_nonzero_def)
qed

lemma list_pop_grows: "list_pop n s = Some s' \<Longrightarrow> grows s s'"
  by (auto simp: list_pop_def grows_links)

lemma list_append_grows: "list_append n x s = Some s' \<Longrightarrow> grows s s'"
  by (auto simp: list_append_def grows_links)

lemma list_prepend_grows: "list_prepend n x s = Some s' \<Longrightarrow> grows s s'"
  by (auto simp: list_prepend_def grows_links)

lemma waiting_init_grows: "grows s (waiting_init w f e s)"
  by (simp add: grows_def mask_kept_def armed_nonzero_def waiting_init_def)

lemma EPoll_handle_loop_grows:
  fixes s :: epoll
  assumes t: "\<And>f a x y. transfer f a x = Some y \<Longrightarrow> grows x y"
  shows "EPoll_handle_loop fuel transfer E list saved node m s = Some (r, m', s') \<Longrightarrow> grows s s'"
proof (induction fuel arbitrary: node m s r m' s')
  case 0
  then show ?case by simp
next
  case (Suc fuel)
  show ?case
  proof (cases "node = list")
    case True
    then show ?thesis using Suc.prems by (simp add: grows_refl)
  next
    case False
    show ?thesis
    proof (cases "waiting_events s node AND E \<noteq> 0")
      case True
      from Suc.prems False True obtain s1 s2 n' s3 r' where
        a: "list_append node saved s = Some s1"
        and b: "transfer (waiting_fiber s1 node) (waiting_events s node AND E) s1 = Some s2"
        and c: "list_pop saved s2 = Some s3"
        and d: "EPoll_handle_loop fuel transfer E list saved n' (m OR (waiting_events s node AND E)) s3
                 = Some (r', m', s')"
        by (auto simp: Let_def split: option.splits)
      have "grows s s1" using a by (rule list_append_grows)
      moreover have "grows s1 s2" using b by (rule t)
      moreover have "grows s2 s3" using c by (rule list_pop_grows)
      moreover have "grows s3 s'" using d by (rule Suc.IH)
      ultimately show ?thesis by (blast intro: grows_trans)
    next
      case F2: False
      from Suc.prems False F2 obtain n' where
        "EPoll_handle_loop fuel transfer E list saved n' m s = Some (r, m', s')"
        by (auto simp: Let_def split: option.splits)
      then show ?thesis by (rule Suc.IH)
    qed
  qed
qed

lemma or_nonzero: "(a::32 word) AND e \<noteq> e \<Longrightarrow> a OR e \<noteq> 0"
  by (metis and_zero_eq or_eq_0_iff)

lemma and_or_self: "(a::32 word) AND (a OR e) = a"
  by (simp add: bit_eq_iff bit_and_iff bit_or_iff)

lemma io_wait_events:
  assumes "IO_Event_Selector_EPoll_io_wait c f d e w s = Some p"
  shows "descriptor_events (progress_state p) = descriptor_events s
       \<or> descriptor_events (progress_state p) = (descriptor_events s)(d := descriptor_events s d OR e)"
  using assms
  by (auto simp: IO_Event_Selector_EPoll_io_wait_def progress_state_def waiting_init_def call_def
      list_prepend_def Let_def epoll_ctl_done_def IO_Event_Selector_EPoll_Descriptor_lookup_def
      IO_Event_Array_lookup_def
      split: sum.splits if_splits option.splits)

lemma io_wait_grows:
  assumes "IO_Event_Selector_EPoll_io_wait c f d e w s = Some p"
  shows "grows s (progress_state p)"
  using assms
  by (auto simp: IO_Event_Selector_EPoll_io_wait_def progress_state_def waiting_init_def call_def
      list_prepend_def Let_def epoll_ctl_done_def IO_Event_Selector_EPoll_Descriptor_lookup_def
      IO_Event_Array_lookup_def grows_def mask_kept_def armed_nonzero_def is_del_def
      and_or_self or_nonzero
      split: sum.splits if_splits option.splits)

lemma io_wait_ensure_grows: "io_wait_ensure w s = Some s' \<Longrightarrow> grows s s'"
  unfolding io_wait_ensure_def by (rule list_pop_grows)

lemma EPoll_wait_step_grows: "EPoll_wait_step x s = Some s' \<Longrightarrow> grows s s'"
proof (cases x)
  case (Leave_io_wait r w)
  assume "EPoll_wait_step x s = Some s'"
  then have "io_wait_ensure w s = Some s'"
    unfolding Leave_io_wait EPoll_leave_step .
  then show ?thesis by (rule io_wait_ensure_grows)
next
  case (Enter_io_wait c f d e w)
  assume "EPoll_wait_step x s = Some s'"
  then obtain p where "IO_Event_Selector_EPoll_io_wait c f d e w s = Some p" "s' = progress_state p"
    unfolding Enter_io_wait by auto
  then show ?thesis using io_wait_grows by blast
qed

lemma EPoll_wait_steps_grows: "EPoll_wait_steps xs s = Some s' \<Longrightarrow> grows s s'"
proof (induction xs arbitrary: s)
  case Nil
  then show ?case by (simp add: grows_refl)
next
  case (Cons x xs)
  from Cons.prems obtain s1 where 1: "EPoll_wait_step x s = Some s1"
    and 2: "EPoll_wait_steps xs s1 = Some s'"
    by (auto split: option.splits)
  show ?case using EPoll_wait_step_grows[OF 1] Cons.IH[OF 2] by (rule grows_trans)
qed

lemma grows_transfers: "grows s (s\<lparr>transfers := t\<rparr>)"
  by (simp add: grows_def mask_kept_def armed_nonzero_def)

lemma EPoll_fiber_transfer_grows: "EPoll_fiber_transfer script f a s = Some s' \<Longrightarrow> grows s s'"
  unfolding EPoll_fiber_transfer_def
  using grows_trans[OF grows_transfers EPoll_wait_steps_grows] by blast

lemma rearm_events: "descriptor_events (EPoll_handle_rearm E m fd d s) = descriptor_events s"
  by (simp add: EPoll_handle_rearm_def call_def epoll_ctl_done_def Let_def)

lemma rearm_grows:
  assumes g: "grows st s1" and i: "interest st d"
  shows "grows st (EPoll_handle_rearm E m d d s1)"
proof -
  have mk: "mask_kept st (EPoll_handle_rearm E m d d s1)"
    using g by (simp add: grows_def mask_kept_def rearm_events)
  have "armed_nonzero (EPoll_handle_rearm E m d d s1)
      \<and> (\<forall>x. interest st x \<longrightarrow> interest (EPoll_handle_rearm E m d d s1) x)"
    if a: "armed_nonzero st"
  proof -
    have a1: "armed_nonzero s1" and i1: "\<forall>x. interest st x \<longrightarrow> interest s1 x"
      using g a by (simp_all add: grows_def)
    have "interest s1 d" using i i1 by simp
    then have nz: "descriptor_events s1 d \<noteq> 0" using a1 by (simp add: armed_nonzero_def)
    show ?thesis
      using a1 i1 nz
      by (simp add: EPoll_handle_rearm_def call_def epoll_ctl_done_def Let_def armed_nonzero_def
          is_del_def)
  qed
  then show ?thesis using mk by (simp add: grows_def)
qed

lemma EPoll_handle_grows:
  assumes h: "IO_Event_Selector_EPoll_handle fuel (EPoll_fiber_transfer script) saved fd flags st
      = Some (r, st')"
    and i: "interest st fd"
  shows "grows st st'"
proof (cases "IO_Event_Selector_EPoll_Descriptor_lookup fd")
  case (Inl e)
  then show ?thesis using h by (simp add: IO_Event_Selector_EPoll_handle_def grows_refl)
next
  case (Inr d)
  then have d: "d = fd"
    by (auto simp: IO_Event_Selector_EPoll_Descriptor_lookup_def IO_Event_Array_lookup_def
        split: if_splits)
  define st0 where "st0 = st\<lparr>links := (links st)(saved := \<lparr>head = None, tail = None\<rparr>)\<rparr>"
  from h Inr obtain node rs m s1 where
    l: "EPoll_handle_loop fuel (EPoll_fiber_transfer script) (events_from_epoll_flags flags)
          (Descriptor_list d) saved node 0 st0 = Some (rs, m, s1)"
    and e: "st' = EPoll_handle_rearm (events_from_epoll_flags flags) m fd d s1"
    unfolding IO_Event_Selector_EPoll_handle_def Let_def st0_def[symmetric]
    by (auto split: option.splits)
  have "grows st st0" unfolding st0_def by (rule grows_links)
  moreover have "grows st0 s1"
    using l by (rule EPoll_handle_loop_grows[rotated]) (rule EPoll_fiber_transfer_grows)
  ultimately have "grows st s1" by (rule grows_trans)
  then show ?thesis unfolding e d using i[unfolded d[symmetric]] d rearm_grows by blast
qed

lemma EPoll_run_grows: "EPoll_run steps s = Some s' \<Longrightarrow> grows s s'"
proof (induction steps arbitrary: s)
  case Nil
  then show ?case by (simp add: grows_refl)
next
  case (Cons x steps)
  show ?case
  proof (cases x)
    case (Wait y)
    from Cons.prems obtain s1 where 1: "EPoll_wait_step y s = Some s1"
      and 2: "EPoll_run steps s1 = Some s'"
      unfolding Wait by (auto split: option.splits)
    show ?thesis using EPoll_wait_step_grows[OF 1] Cons.IH[OF 2] by (rule grows_trans)
  next
    case (Handle fuel saved fd flags script)
    from Cons.prems obtain r s1 where i: "interest s fd"
      and 1: "IO_Event_Selector_EPoll_handle fuel (EPoll_fiber_transfer script) saved fd flags s
                = Some (r, s1)"
      and 2: "EPoll_run steps s1 = Some s'"
      unfolding Handle by (auto split: option.splits if_splits)
    show ?thesis using EPoll_handle_grows[OF 1 i] Cons.IH[OF 2] by (rule grows_trans)
  qed
qed

lemma armed_nonzero_initial: "armed_nonzero EPoll_initial"
  by (simp add: armed_nonzero_def EPoll_initial_def)

lemma io_wait_suspended_nonzero:
  assumes "IO_Event_Selector_EPoll_io_wait c f d e w s = Some (Suspended s')" "e \<noteq> 0"
  shows "descriptor_events s' d \<noteq> 0"
  using assms
  by (auto simp: IO_Event_Selector_EPoll_io_wait_def waiting_init_def call_def
      list_prepend_def Let_def epoll_ctl_done_def IO_Event_Selector_EPoll_Descriptor_lookup_def
      IO_Event_Array_lookup_def or_nonzero
      split: sum.splits if_splits option.splits)

lemma io_wait_ensure_events: "io_wait_ensure w s = Some s' \<Longrightarrow> descriptor_events s' = descriptor_events s"
  by (auto simp: io_wait_ensure_def list_pop_def)

lemma mask_kept_nonzero:
  "mask_kept s s' \<Longrightarrow> descriptor_events s d \<noteq> 0 \<Longrightarrow> descriptor_events s' d \<noteq> 0"
  unfolding mask_kept_def by (metis and_zero_eq)

section \<open>The ready events of the kqueue backend\<close>















section \<open>One dispatch pass for each record in a select\<close>




section \<open>The buffered I/O loops against the loop of the specification\<close>

text \<open>
  The loops of \<^verbatim>\<open>epoll.c\<close> follow \<open>spec_io_loop\<close> with the counter started at the offset
  given by the caller; the read loop of \<^verbatim>\<open>kqueue.c\<close> follows it with the counter given,
  as long as the requested length fits in the buffer behind the offset. The waits made by
  each loop are for one event only.
\<close>

lemma epoll_io_read_loop_spec:
  "map_option snd (epoll_io_read_loop try_again bsize len offset script)
     = spec_io_loop try_again len offset script"
  by (induction script arbitrary: len offset)
    (auto simp: Let_def option.map_comp comp_def split_def)

lemma epoll_io_write_while_spec:
  "map_option snd (epoll_io_write_while try_again bsize len offset script)
     = spec_io_loop try_again len offset script"
  by (induction script arbitrary: len offset)
    (auto simp: Let_def option.map_comp comp_def split_def)

lemma room_step:
  fixes len offset bsize r :: "64 word"
  assumes "unat offset + unat len \<le> unat bsize" "\<not> len \<le> r"
  shows "unat (offset + r) + unat (len - r) \<le> unat bsize" "offset + r \<noteq> bsize"
proof -
  have rl: "unat r < unat len" using assms(2) by (simp add: word_le_nat_alt)
  have b: "unat bsize < 2 ^ 64" using unsigned_less[of bsize, where ?'a=nat] by simp
  have "unat offset + unat r < 2 ^ 64" using assms(1) rl b by linarith
  then have a: "unat (offset + r) = unat offset + unat r"
    by (simp add: unat_add_lem[THEN iffD1])
  have s: "unat (len - r) = unat len - unat r"
    using rl by (simp add: unat_sub word_le_nat_alt)
  show "unat (offset + r) + unat (len - r) \<le> unat bsize"
    using a s rl assms(1) by linarith
  have "unat (offset + r) < unat bsize" using a rl assms(1) by linarith
  then show "offset + r \<noteq> bsize" by auto
qed

lemma kqueue_io_read_while_spec:
  "unat offset + unat len \<le> unat bsize \<Longrightarrow> offset \<noteq> bsize \<Longrightarrow>
   map_option snd (kqueue_io_read_while try_again bsize len offset ntotal script)
     = spec_io_loop try_again len ntotal script"
proof (induction script arbitrary: len offset ntotal)
  case Nil
  then show ?case by simp
next
  case (Cons a script)
  have nz: "bsize - offset \<noteq> 0" using Cons.prems(2) by simp
  show ?case
  proof (cases "0 <s returned a \<and> \<not> len \<le> returned a")
    case True
    have "map_option snd (kqueue_io_read_while try_again bsize (len - returned a)
             (offset + returned a) (ntotal + returned a) script)
        = spec_io_loop try_again (len - returned a) (ntotal + returned a) script"
      using room_step[OF Cons.prems(1), of "returned a"] True by (intro Cons.IH) simp_all
    then show ?thesis
      using True nz
      by (subst kqueue_io_read_while.simps) (simp add: Let_def option.map_comp comp_def split_def)
  next
    case False
    have "map_option snd (kqueue_io_read_while try_again bsize len offset ntotal script)
        = spec_io_loop try_again len ntotal script"
      using Cons.prems by (intro Cons.IH)
    then show ?thesis
      using False nz
      by (subst kqueue_io_read_while.simps)
        (auto simp: Let_def option.map_comp comp_def split_def)
  qed
qed

lemma epoll_io_read_loop_waits:
  "epoll_io_read_loop try_again bsize len offset script = Some (cs, r) \<Longrightarrow>
   Io_wait e \<in> set cs \<Longrightarrow> e = IO_EVENT_READABLE"
  by (induction script arbitrary: len offset cs r)
    (auto simp: Let_def split: if_splits)

lemma epoll_io_write_while_waits:
  "epoll_io_write_while try_again bsize len offset script = Some (cs, r) \<Longrightarrow>
   Io_wait e \<in> set cs \<Longrightarrow> e = IO_EVENT_WRITABLE"
  by (induction script arbitrary: len offset cs r)
    (auto simp: Let_def split: if_splits)

lemma kqueue_io_read_while_waits:
  "kqueue_io_read_while try_again bsize len offset ntotal script = Some (cs, r) \<Longrightarrow>
   Io_wait e \<in> set cs \<Longrightarrow> e = IO_EVENT_READABLE"
proof (induction script arbitrary: len offset ntotal cs r)
  case Nil
  then show ?case
    by (subst (asm) kqueue_io_read_while.simps) (auto simp: Let_def split: if_splits)
next
  case (Cons a script)
  from Cons.prems show ?case
    by (subst (asm) kqueue_io_read_while.simps)
      (auto simp del: kqueue_io_read_while.simps simp: Let_def split: if_splits dest: Cons.IH)
qed

lemma kqueue_io_write_while_waits:
  "kqueue_io_write_while try_again bsize len offset ntotal script = Some (cs, r) \<Longrightarrow>
   Io_wait e \<in> set cs \<Longrightarrow> e = IO_EVENT_READABLE"
proof (induction script arbitrary: len offset ntotal cs r)
  case Nil
  then show ?case
    by (subst (asm) kqueue_io_write_while.simps) (auto simp: Let_def split: if_splits)
next
  case (Cons a script)
  from Cons.prems show ?case
    by (subst (asm) kqueue_io_write_while.simps)
      (auto simp del: kqueue_io_write_while.simps simp: Let_def split: if_splits dest: Cons.IH)
qed

lemma kqueue_io_read_loop_spec:
  "unat offset + unat len \<le> unat bsize \<Longrightarrow> offset \<noteq> bsize \<Longrightarrow>
   map_option snd (kqueue_io_read_loop try_again bsize len offset script)
     = spec_io_loop try_again len 0 script"
  unfolding kqueue_io_read_loop_def by (rule kqueue_io_read_while_spec)

section \<open>Results of the buffered I/O loops\<close>

text \<open>
  Claim C6. On both backends, when the loop of \<^verbatim>\<open>io_read\<close> ends normally (the requested
  length was reached, or \<^verbatim>\<open>read\<close> returned zero), the result is the number of bytes
  transferred during this call with error 0, for every starting offset. On the epoll backend
  the result is the final offset instead: with a buffer of 8 bytes, \<^verbatim>\<open>length = 3\<close>,
  \<^verbatim>\<open>offset = 2\<close> and a \<^verbatim>\<open>read\<close> that returns 3, the loop returns \<open>(5, 0)\<close>, while 3 bytes
  were transferred.
\<close>

theorem epoll_io_read_loop_returns_final_offset:
  "epoll_io_read_loop (\<lambda>e. e = EAGAIN) 8 3 2
      [\<lparr>returned = 3, errno = 0, wait_raises = False\<rparr>]
    = Some ([Read 2 6], Io_result 5 0)"
  by (simp add: word_sless_alt)

text \<open>The kqueue backend returns the count of bytes on the same input.\<close>

lemma kqueue_io_read_loop_returns_count:
  "kqueue_io_read_loop (\<lambda>e. e = BSD_EAGAIN) 8 3 2
      [\<lparr>returned = 3, errno = 0, wait_raises = False\<rparr>]
    = Some ([Read 2 6], Io_result 3 0)"
  by (simp add: kqueue_io_read_loop_def word_sless_alt)

text \<open>
  Claim C7. In the loops of both backends, a \<^verbatim>\<open>read\<close>/\<^verbatim>\<open>write\<close> that fails with a
  retry-class errno while the remaining length is positive is followed by \<^verbatim>\<open>io_wait\<close> for
  READABLE in the read loop and for WRITABLE in the write loop. The write loop of
  \<^verbatim>\<open>kqueue.c\<close> waits for READABLE: with a buffer of 8 bytes, \<^verbatim>\<open>length = 3\<close>,
  \<^verbatim>\<open>offset = 0\<close>, a first \<^verbatim>\<open>write\<close> failing with \<^verbatim>\<open>EAGAIN\<close> and a second one writing 3
  bytes, the calls are \<open>write\<close>, \<open>io_wait(READABLE)\<close>, \<open>write\<close>.
\<close>

theorem kqueue_io_write_loop_waits_readable:
  "kqueue_io_write_loop (\<lambda>e. e = BSD_EAGAIN) 8 3 0
      [\<lparr>returned = - 1, errno = BSD_EAGAIN, wait_raises = False\<rparr>,
       \<lparr>returned = 3, errno = 0, wait_raises = False\<rparr>]
    = Some ([Write 0 8, Io_wait IO_EVENT_READABLE, Write 0 8], Io_result 3 0)
   \<and> IO_EVENT_READABLE \<noteq> IO_EVENT_WRITABLE"
  by (simp add: kqueue_io_write_loop_def word_sless_alt IO_EVENT_READABLE_def IO_EVENT_WRITABLE_def)



section \<open>Properties of the wait primitives\<close>

text \<open>
  Claim C4. On the epoll backend, for every call of \<^verbatim>\<open>io_wait\<close> (on a descriptor that has a
  record, whose list is well formed and does not yet hold the new waiter): if the armed mask
  of the record covers the requested events, no \<^verbatim>\<open>epoll_ctl\<close> is made; otherwise
  \<^verbatim>\<open>epoll_ctl\<close> is the next call, with \<^verbatim>\<open>EPOLL_CTL_MOD\<close> when the armed mask was nonzero and
  \<^verbatim>\<open>EPOLL_CTL_ADD\<close> when it was zero, and when it succeeds the armed mask becomes the
  bitwise OR of the old mask and the requested events. Whenever \<^verbatim>\<open>epoll_ctl\<close> is not needed
  or succeeds, the waiter is linked at the head of the list of the descriptor and the fiber
  is suspended.
\<close>

theorem EPoll_io_wait_arms_and_links:
  assumes "0 \<le> descriptor"
    and "dll (links st) (Descriptor_list descriptor) xs"
    and "waiting \<notin> set (Descriptor_list descriptor # xs)"
  shows
    "(descriptor_events st descriptor AND events = events \<longrightarrow>
        (\<exists>st'. IO_Event_Selector_EPoll_io_wait ctl_errno fiber descriptor events waiting st
                  = Some (Suspended st')
           \<and> calls st' = calls st \<and> descriptor_events st' = descriptor_events st
           \<and> dll (links st') (Descriptor_list descriptor) (waiting # xs)
           \<and> waiting_events st' waiting = events \<and> waiting_fiber st' waiting = fiber))
     \<and> (descriptor_events st descriptor AND events \<noteq> events \<longrightarrow>
        (\<exists>p. IO_Event_Selector_EPoll_io_wait ctl_errno fiber descriptor events waiting st = Some p
           \<and> take (Suc (length (calls st))) (calls (progress_state p)) = calls st @
               [Epoll_ctl (if descriptor_events st descriptor \<noteq> 0 then EPOLL_CTL_MOD else EPOLL_CTL_ADD)
                  descriptor (epoll_flags_from_events (descriptor_events st descriptor OR events))])
        \<and> (\<exists>st'. IO_Event_Selector_EPoll_io_wait None fiber descriptor events waiting st
                  = Some (Suspended st')
           \<and> calls st' = calls st @
               [Epoll_ctl (if descriptor_events st descriptor \<noteq> 0 then EPOLL_CTL_MOD else EPOLL_CTL_ADD)
                  descriptor (epoll_flags_from_events (descriptor_events st descriptor OR events))]
           \<and> descriptor_events st' =
               (descriptor_events st)(descriptor := descriptor_events st descriptor OR events)
           \<and> dll (links st') (Descriptor_list descriptor) (waiting # xs)
           \<and> waiting_events st' waiting = events \<and> waiting_fiber st' waiting = fiber))"
  using EPoll_io_wait_covered[OF assms, of events ctl_errno fiber]
        EPoll_io_wait_call[OF assms, of events ctl_errno fiber]
        EPoll_io_wait_armed[OF assms, of events fiber]
  by blast

theorem EPoll_io_wait_arms_and_links_witness:
  "\<exists>st'. IO_Event_Selector_EPoll_io_wait None 7 3 IO_EVENT_READABLE (Stack 1) EPoll_initial
            = Some (Suspended st')
      \<and> calls st' = [Epoll_ctl EPOLL_CTL_ADD 3 (EPOLLIN OR EPOLLHUP OR EPOLLERR)]
      \<and> descriptor_events st' 3 = IO_EVENT_READABLE
      \<and> dll (links st') (Descriptor_list 3) [Stack 1]"
proof -
  have h1: "(0::int) \<le> 3" by simp
  have h2: "dll (links EPoll_initial) (Descriptor_list 3) []"
    by (simp add: dll_def EPoll_initial_def)
  have h3: "Stack 1 \<notin> set (Descriptor_list 3 # [])" by simp
  have c: "descriptor_events EPoll_initial 3 AND IO_EVENT_READABLE \<noteq> IO_EVENT_READABLE"
    "calls EPoll_initial = []" "descriptor_events EPoll_initial 3 = 0"
    by (simp_all add: EPoll_initial_def IO_EVENT_READABLE_def)
  have f: "epoll_flags_from_events IO_EVENT_READABLE = EPOLLIN OR EPOLLHUP OR EPOLLERR"
    by (simp add: epoll_flags_from_events_def IO_EVENT_READABLE_def IO_EVENT_PRIORITY_def
        IO_EVENT_WRITABLE_def EPOLLIN_def EPOLLHUP_def EPOLLERR_def)
  show ?thesis
    using EPoll_io_wait_arms_and_links[OF h1 h2 h3, of IO_EVENT_READABLE None 7] c f
    by auto
qed

text \<open>
  Claim C8. On the epoll backend, when the \<^verbatim>\<open>epoll_ctl\<close> made by \<^verbatim>\<open>io_wait\<close> fails with
  \<^verbatim>\<open>EPERM\<close>, \<^verbatim>\<open>io_wait\<close> does not raise: it pushes the fiber on the ready queue, yields, and
  returns the requested events unchanged; the node of the waiter stays unlinked, every list
  is as it was, and the armed mask of the record is unchanged.
\<close>

theorem EPoll_io_wait_eperm_is_ready:
  assumes "0 \<le> descriptor"
    and "descriptor_events st descriptor AND events \<noteq> events"
  shows "\<exists>st'. IO_Event_Selector_EPoll_io_wait (Some EPERM) fiber descriptor events waiting st
             = Some (Completed (Integer events) st')
           \<and> calls st' = calls st @
               [Epoll_ctl (if descriptor_events st descriptor \<noteq> 0 then EPOLL_CTL_MOD else EPOLL_CTL_ADD)
                  descriptor (epoll_flags_from_events (descriptor_events st descriptor OR events)),
                Queue_push fiber, Yield]
           \<and> descriptor_events st' = descriptor_events st
           \<and> links st' waiting = \<lparr>head = None, tail = None\<rparr>
           \<and> (\<forall>a. a \<noteq> waiting \<longrightarrow> links st' a = links st a)
           \<and> (\<forall>list xs. dll (links st) list xs \<and> waiting \<notin> set (list # xs)
                \<longrightarrow> dll (links st') list xs)"
proof -
  obtain st' where s: "IO_Event_Selector_EPoll_io_wait (Some EPERM) fiber descriptor events waiting st
             = Some (Completed (Integer events) st')"
    "calls st' = calls st @
               [Epoll_ctl (if descriptor_events st descriptor \<noteq> 0 then EPOLL_CTL_MOD else EPOLL_CTL_ADD)
                  descriptor (epoll_flags_from_events (descriptor_events st descriptor OR events)),
                Queue_push fiber, Yield]"
    "descriptor_events st' = descriptor_events st"
    "links st' waiting = \<lparr>head = None, tail = None\<rparr>"
    "\<forall>a. a \<noteq> waiting \<longrightarrow> links st' a = links st a"
    using EPoll_io_wait_eperm[OF assms, of fiber waiting] by blast
  have "dll (links st') list xs" if "dll (links st) list xs" "waiting \<notin> set (list # xs)" for list xs
  proof -
    have "dll (links st') list xs = dll (links st) list xs"
      using s(5) that(2) by (intro dll_cong) auto
    then show ?thesis using that by simp
  qed
  then show ?thesis using s by blast
qed

theorem EPoll_io_wait_eperm_is_ready_witness:
  "\<exists>st'. IO_Event_Selector_EPoll_io_wait (Some EPERM) 7 3 IO_EVENT_READABLE (Stack 1) EPoll_initial
            = Some (Completed (Integer IO_EVENT_READABLE) st')
      \<and> calls st' = [Epoll_ctl EPOLL_CTL_ADD 3 (EPOLLIN OR EPOLLHUP OR EPOLLERR), Queue_push 7, Yield]
      \<and> descriptor_events st' 3 = 0
      \<and> dll (links st') (Descriptor_list 3) []"
proof -
  have h1: "(0::int) \<le> 3" by simp
  have h2: "descriptor_events EPoll_initial 3 AND IO_EVENT_READABLE \<noteq> IO_EVENT_READABLE"
    by (simp add: EPoll_initial_def IO_EVENT_READABLE_def)
  have c: "calls EPoll_initial = []" "descriptor_events EPoll_initial 3 = 0"
    "dll (links EPoll_initial) (Descriptor_list 3) []"
    by (simp_all add: EPoll_initial_def dll_def)
  have f: "epoll_flags_from_events IO_EVENT_READABLE = EPOLLIN OR EPOLLHUP OR EPOLLERR"
    by (simp add: epoll_flags_from_events_def IO_EVENT_READABLE_def IO_EVENT_PRIORITY_def
        IO_EVENT_WRITABLE_def EPOLLIN_def EPOLLHUP_def EPOLLERR_def)
  obtain st' where s: "IO_Event_Selector_EPoll_io_wait (Some EPERM) 7 3 IO_EVENT_READABLE (Stack 1) EPoll_initial
            = Some (Completed (Integer IO_EVENT_READABLE) st')"
     "calls st' = calls EPoll_initial @
               [Epoll_ctl (if descriptor_events EPoll_initial 3 \<noteq> 0 then EPOLL_CTL_MOD else EPOLL_CTL_ADD)
                  3 (epoll_flags_from_events (descriptor_events EPoll_initial 3 OR IO_EVENT_READABLE)),
                Queue_push 7, Yield]"
     "descriptor_events st' = descriptor_events EPoll_initial"
     "\<forall>list xs. dll (links EPoll_initial) list xs \<and> Stack 1 \<notin> set (list # xs)
                \<longrightarrow> dll (links st') list xs"
    using EPoll_io_wait_eperm_is_ready[OF h1 h2, of 7 "Stack 1"] by blast
  have "dll (links st') (Descriptor_list 3) []" using s(4) c(3) by simp
  then show ?thesis using s(1,2,3) c f by auto
qed

text \<open>
  Claim C5, as the code has it. When a fiber suspended in \<^verbatim>\<open>io_wait\<close> (on either backend) is
  resumed with a falsy value, \<^verbatim>\<open>io_wait\<close> returns \<^verbatim>\<open>false\<close> and makes no call to the kernel.
  On every exit path (a value, a falsy value, an exception raised into the fiber) of
  \<^verbatim>\<open>io_wait\<close> and \<^verbatim>\<open>process_wait\<close> on both backends the waiter is unlinked from the list
  of its descriptor; \<^verbatim>\<open>process_wait\<close> on epoll closes the process descriptor on every exit
  path, as its last call.
\<close>

theorem wait_cancelled_or_left_unlinks:
  assumes "dll (links st) list (xs @ waiting # ys)"
    and "dll (links kst) klist (kxs @ kwaiting # kys)"
  shows
    "(\<not> RTEST v \<longrightarrow>
        (\<exists>st'. IO_Event_Selector_EPoll_io_wait_resumed (Resume v) waiting st = Some (Inr Qfalse, st')
            \<and> calls st' = calls st)
      \<and> (\<exists>kst'. IO_Event_Selector_KQueue_io_wait_resumed (Resume v) kwaiting kst = Some (Inr Qfalse, kst')
            \<and> calls kst' = calls kst))
     \<and> (\<exists>v' st'. IO_Event_Selector_EPoll_io_wait_resumed r waiting st = Some (v', st')
            \<and> dll (links st') list (xs @ ys) \<and> links st' waiting = \<lparr>head = None, tail = None\<rparr>)
     \<and> (\<exists>v' st'. IO_Event_Selector_EPoll_process_wait_resumed r status pid descriptor waiting st
              = Some (v', st')
            \<and> dll (links st') list (xs @ ys) \<and> links st' waiting = \<lparr>head = None, tail = None\<rparr>
            \<and> last (calls st') = Close descriptor)
     \<and> (\<exists>v' kst'. IO_Event_Selector_KQueue_io_wait_resumed r kwaiting kst = Some (v', kst')
            \<and> dll (links kst') klist (kxs @ kys) \<and> links kst' kwaiting = \<lparr>head = None, tail = None\<rparr>)
     \<and> (\<exists>v' kst'. IO_Event_Selector_KQueue_process_wait_resumed r status pid kwaiting kst
              = Some (v', kst')
            \<and> dll (links kst') klist (kxs @ kys) \<and> links kst' kwaiting = \<lparr>head = None, tail = None\<rparr>)"
proof -
  have c: "\<not> RTEST v \<longrightarrow>
        (\<exists>st'. IO_Event_Selector_EPoll_io_wait_resumed (Resume v) waiting st = Some (Inr Qfalse, st')
            \<and> calls st' = calls st)
      \<and> (\<exists>kst'. IO_Event_Selector_KQueue_io_wait_resumed (Resume v) kwaiting kst = Some (Inr Qfalse, kst')
            \<and> calls kst' = calls kst)"
    using EPoll_io_wait_resumed_unlinks[OF assms(1), of "Resume v"]
      KQueue_io_wait_resumed_unlinks[OF assms(2), of "Resume v"]
    by (auto simp: io_wait_transfer_cancel)
  have e1: "\<exists>v' st'. IO_Event_Selector_EPoll_io_wait_resumed r waiting st = Some (v', st')
            \<and> dll (links st') list (xs @ ys) \<and> links st' waiting = \<lparr>head = None, tail = None\<rparr>"
    using EPoll_io_wait_resumed_unlinks[OF assms(1), of r] by blast
  have k1: "\<exists>v' kst'. IO_Event_Selector_KQueue_io_wait_resumed r kwaiting kst = Some (v', kst')
            \<and> dll (links kst') klist (kxs @ kys) \<and> links kst' kwaiting = \<lparr>head = None, tail = None\<rparr>"
    using KQueue_io_wait_resumed_unlinks[OF assms(2), of r] by blast
  show ?thesis
    using c e1 k1 EPoll_process_wait_resumed_unlinks[OF assms(1), of r status pid descriptor]
      KQueue_process_wait_resumed_unlinks[OF assms(2), of r status pid]
    by blast
qed

theorem wait_cancelled_or_left_unlinks_witness:
  "(\<exists>st'. IO_Event_Selector_EPoll_io_wait_resumed (Resume Qnil) (Stack 1) EPoll_parked
             = Some (Inr Qfalse, st') \<and> calls st' = [])
   \<and> (\<exists>kst'. IO_Event_Selector_KQueue_io_wait_resumed (Resume Qnil) (Stack 1) KQueue_parked
             = Some (Inr Qfalse, kst') \<and> calls kst' = [])
   \<and> (\<exists>v' st'. IO_Event_Selector_EPoll_process_wait_resumed (Throw (Host_exception 0)) (Inr (Object 0))
                   100 3 (Stack 1) EPoll_parked = Some (v', st')
          \<and> dll (links st') (Descriptor_list 3) [])"
proof -
  have h1: "dll (links EPoll_parked) (Descriptor_list 3) ([] @ Stack 1 # [])"
    using dll_parked by (simp add: EPoll_parked_def)
  have h2: "dll (links KQueue_parked) (Descriptor_list 3) ([] @ Stack 1 # [])"
    using dll_parked by (simp add: KQueue_parked_def)
  have c: "\<not> RTEST Qnil" "calls EPoll_parked = []" "calls KQueue_parked = []"
    by (simp_all add: RTEST_def EPoll_parked_def KQueue_parked_def)
  show ?thesis
    using wait_cancelled_or_left_unlinks[OF h1 h2, of Qnil "Throw (Host_exception 0)"
        "Inr (Object 0)" 100 3] c
    by auto
qed

text \<open>
  Claim C5 as stated says that every wait primitive, resumed with the cancellation value,
  returns a falsy result without any call to the kernel. \<^verbatim>\<open>process_wait\<close> on epoll, parked
  on the process descriptor 5 of process 100 (the state \<open>EPoll_process_parked\<close>) and resumed
  with \<^verbatim>\<open>nil\<close>, asks for the process status, closes the descriptor, and returns the status
  it was given.
\<close>

theorem process_wait_cancelled_calls_kernel:
  "map_option fst
     (IO_Event_Selector_EPoll_process_wait_resumed (Resume Qnil) (Inr (Object 0)) 100 5 (Stack 1)
        EPoll_process_parked)
     = Some (Inr (Object 0))
   \<and> map_option (calls \<circ> snd)
     (IO_Event_Selector_EPoll_process_wait_resumed (Resume Qnil) (Inr (Object 0)) 100 5 (Stack 1)
        EPoll_process_parked)
     = Some (calls EPoll_process_parked @ [Process_status_wait 100, Close 5])
   \<and> \<not> RTEST Qnil \<and> RTEST (Object 0) \<and> kernel_call (Close 5)"
  by (simp add: IO_Event_Selector_EPoll_process_wait_resumed_def
      process_wait_transfer_def EPoll_process_wait_ensure_def list_pop_def IO_Event_List_pop_def
      call_def EPoll_process_parked_def EPoll_initial_def Let_def RTEST_def kernel_call_def)

section \<open>Properties of the dispatch\<close>

text \<open>
  Claim C1. For every dispatch of fired events \<open>E\<close> on the waiter list of a descriptor, on
  both backends (\<open>E\<close> is the translation of the kernel flags on epoll and the nonzero
  \<^verbatim>\<open>ready\<close> member on kqueue), the handler starts at \<^verbatim>\<open>list->tail\<close> and follows the
  \<^verbatim>\<open>tail\<close> pointers. The resumed fibers are any that unlink their own waiter and leave
  \<^verbatim>\<open>saved\<close> linked; they may link new waiters, which \<^verbatim>\<open>io_wait\<close> puts at \<^verbatim>\<open>list->tail\<close>
  and so in front of \<^verbatim>\<open>saved\<close>, and unlink waiters on either side of \<^verbatim>\<open>saved\<close>, and they
  leave the members of the waiters that stay behind \<^verbatim>\<open>saved\<close> as they are. Then the walk
  ends and leaves a well-formed list without \<^verbatim>\<open>saved\<close>, and it is the walk
  \<open>resumed_in_turn\<close>: the handler resumes exactly the waiters that are on the list when
  the walk reaches them and whose requested mask intersects \<open>E\<close>, each once, with the
  intersection of its mask and \<open>E\<close> as argument, which is nonzero and contained in the
  requested mask, and it passes over the others. The transfers it makes are the transfers
  the host has noted; they go to waiters of the initial list whose mask intersects \<open>E\<close>, to
  each at most once, in the order of the walk; the first waiter whose mask intersects \<open>E\<close>
  is always resumed. When no resumed fiber unlinks a waiter that the walk has not reached
  yet, exactly the waiters of the initial list whose mask intersects \<open>E\<close> are resumed, each
  once.
\<close>

theorem handle_resumes_linked_waiters:
  assumes "0 \<le> d"
    and "parked_on (links st) (Descriptor_list d) W ws"
    and "saved \<notin> set (Descriptor_list d # ws) \<union> W"
    and "resumed_fiber_keeps_cursor transfer (Descriptor_list d) saved W ws
           (waiting_events st) (waiting_fiber st) (events_from_epoll_flags flags)"
    and "length ws < fuel"
    and "parked_on (links kst) (Descriptor_list kd) kW kws"
    and "ksaved \<notin> set (Descriptor_list kd # kws) \<union> kW"
    and "descriptor_ready kst kd \<noteq> 0"
    and "resumed_fiber_keeps_cursor ktransfer (Descriptor_list kd) ksaved kW kws
           (waiting_events kst) (waiting_fiber kst) (descriptor_ready kst kd)"
    and "length kws < kfuel"
  shows
    "(\<exists>resumed m s1 st' zs.
        IO_Event_Selector_EPoll_handle fuel transfer saved d flags st = Some (Inr resumed, st')
        \<and> st' = EPoll_handle_rearm (events_from_epoll_flags flags) m d d s1
        \<and> resumed_in_turn transfer (Descriptor_list d) saved (events_from_epoll_flags flags) ws
             (st\<lparr>links := (links st)(saved := \<lparr>head = None, tail = None\<rparr>)\<rparr>) resumed s1
        \<and> subseq resumed (matching_waiters (waiting_events st) (waiting_fiber st)
                             (events_from_epoll_flags flags) ws)
        \<and> take 1 resumed = take 1 (matching_waiters (waiting_events st) (waiting_fiber st)
                             (events_from_epoll_flags flags) ws)
        \<and> (resumed_fiber_unlinks transfer (Descriptor_list d) saved ws
              (waiting_events st) (waiting_fiber st) (events_from_epoll_flags flags)
            \<longrightarrow> resumed = matching_waiters (waiting_events st) (waiting_fiber st)
                             (events_from_epoll_flags flags) ws)
        \<and> transfers st' = transfers st @ resumed
        \<and> dll (links st') (Descriptor_list d) zs \<and> saved \<notin> set zs)
     \<and> (\<exists>resumed kst' zs.
        IO_Event_Selector_KQueue_handle kfuel ktransfer ksaved ident kd kst = Some (resumed, kst')
        \<and> resumed_in_turn ktransfer (Descriptor_list kd) ksaved (descriptor_ready kst kd) kws
             (kst\<lparr>descriptor_ready := (descriptor_ready kst)(kd := 0),
                  links := (links kst)(ksaved := \<lparr>head = None, tail = None\<rparr>)\<rparr>) resumed kst'
        \<and> subseq resumed (matching_waiters (waiting_events kst) (waiting_fiber kst)
                             (descriptor_ready kst kd) kws)
        \<and> take 1 resumed = take 1 (matching_waiters (waiting_events kst) (waiting_fiber kst)
                             (descriptor_ready kst kd) kws)
        \<and> (resumed_fiber_unlinks ktransfer (Descriptor_list kd) ksaved kws
              (waiting_events kst) (waiting_fiber kst) (descriptor_ready kst kd)
            \<longrightarrow> resumed = matching_waiters (waiting_events kst) (waiting_fiber kst)
                             (descriptor_ready kst kd) kws)
        \<and> transfers kst' = transfers kst @ resumed
        \<and> dll (links kst') (Descriptor_list kd) zs \<and> ksaved \<notin> set zs)
     \<and> (\<forall>(f, M) \<in> set (matching_waiters ev fb E xs).
          M \<noteq> 0 \<and> M AND E = M \<and> (\<exists>w \<in> set xs. f = fb w \<and> M = ev w AND E \<and> M AND ev w = M))"
  using EPoll_handle_turn[OF assms(1-5)] KQueue_handle_turn[OF assms(6-10), of ident]
    matching_waiters_arguments[of ev fb E xs]
  by (intro conjI)

lemma cancel_example:
  "map_option fst
     (IO_Event_Selector_EPoll_handle 4
        (cancelling_transfer cancel_second (EPoll_fiber_transfer parked_script)) (Stack 0) 3
        (EPOLLIN OR EPOLLOUT) EPoll_three)
     = Some (Inr [(11, IO_EVENT_READABLE), (13, IO_EVENT_READABLE OR IO_EVENT_WRITABLE)])"
  by code_simp

theorem handle_resumes_linked_waiters_witness:
  "(\<exists>st' zs. IO_Event_Selector_EPoll_handle 4
               (cancelling_transfer cancel_second (EPoll_fiber_transfer parked_script)) (Stack 0) 3
               (EPOLLIN OR EPOLLOUT) EPoll_three
         = Some (Inr [(11, IO_EVENT_READABLE), (13, IO_EVENT_READABLE OR IO_EVENT_WRITABLE)], st')
        \<and> transfers st' = [(11, IO_EVENT_READABLE), (13, IO_EVENT_READABLE OR IO_EVENT_WRITABLE)]
        \<and> dll (links st') (Descriptor_list 3) zs \<and> Stack 0 \<notin> set zs)
   \<and> (\<exists>kst' zs. IO_Event_Selector_KQueue_handle 4 (KQueue_fiber_transfer parked_script) (Stack 0) 3 3
               KQueue_three
         = Some ([(11, IO_EVENT_READABLE), (13, IO_EVENT_READABLE)], kst')
        \<and> transfers kst' = [(11, IO_EVENT_READABLE), (13, IO_EVENT_READABLE)]
        \<and> dll (links kst') (Descriptor_list 3) zs \<and> Stack 0 \<notin> set zs)"
proof -
  have h1: "(0::int) \<le> 3" by simp
  have h2: "parked_on (links EPoll_three) (Descriptor_list 3) {Stack 2} [Stack 1, Stack 2, Stack 3]"
    using dll_three by (simp add: EPoll_three_def parked_on_def)
  have h3: "Stack 0 \<notin> set (Descriptor_list 3 # [Stack 1, Stack 2, Stack 3]) \<union> {Stack 2}" by simp
  have sc: "parked_script (three_fibers w) arg = [Leave_io_wait (Resume (Integer arg)) w]"
    if "w \<in> set [Stack 1, Stack 2, Stack 3]" for w arg
    using that by (auto simp: three_fibers_def parked_script_def)
  have b4: "resumed_fiber_keeps_cursor (EPoll_fiber_transfer parked_script) (Descriptor_list 3)
      (Stack 0) {Stack 2} [Stack 1, Stack 2, Stack 3] (waiting_events EPoll_three)
      (waiting_fiber EPoll_three) (events_from_epoll_flags (EPOLLIN OR EPOLLOUT))"
    using EPoll_fiber_transfer_keeps_cursor[of "[Stack 1, Stack 2, Stack 3]" parked_script three_fibers, OF sc]
    by (simp add: EPoll_three_def)
  have h4: "resumed_fiber_keeps_cursor
      (cancelling_transfer cancel_second (EPoll_fiber_transfer parked_script)) (Descriptor_list 3)
      (Stack 0) {Stack 2} [Stack 1, Stack 2, Stack 3] (waiting_events EPoll_three)
      (waiting_fiber EPoll_three) (events_from_epoll_flags (EPOLLIN OR EPOLLOUT))"
    by (rule cancelling_transfer_keeps_cursor[OF b4]) (auto simp: cancel_second_def)
  have h5: "length [Stack 1, Stack 2, Stack 3] < (4::nat)" by simp
  have k1: "parked_on (links KQueue_three) (Descriptor_list 3) {} [Stack 1, Stack 2, Stack 3]"
    using dll_three by (simp add: KQueue_three_def parked_on_def)
  have k2: "Stack 0 \<notin> set (Descriptor_list 3 # [Stack 1, Stack 2, Stack 3]) \<union> {}" by simp
  have k3: "descriptor_ready KQueue_three 3 \<noteq> 0"
    by (simp add: KQueue_three_def IO_EVENT_READABLE_def)
  have ks: "resumed_fiber_unlinks (KQueue_fiber_transfer parked_script) (Descriptor_list 3) (Stack 0)
      [Stack 1, Stack 2, Stack 3] (waiting_events KQueue_three) (waiting_fiber KQueue_three)
      (descriptor_ready KQueue_three 3)"
    using KQueue_fiber_transfer_unlinks[of "[Stack 1, Stack 2, Stack 3]" parked_script three_fibers, OF sc]
    by (simp add: KQueue_three_def)
  have k4: "resumed_fiber_keeps_cursor (KQueue_fiber_transfer parked_script) (Descriptor_list 3)
      (Stack 0) {} [Stack 1, Stack 2, Stack 3] (waiting_events KQueue_three)
      (waiting_fiber KQueue_three) (descriptor_ready KQueue_three 3)"
    using ks by (rule unlinks_keeps_cursor)
  have m2: "matching_waiters (waiting_events KQueue_three) (waiting_fiber KQueue_three)
      (descriptor_ready KQueue_three 3) [Stack 1, Stack 2, Stack 3]
      = [(11, IO_EVENT_READABLE), (13, IO_EVENT_READABLE)]"
    by (simp add: matching_waiters_def KQueue_three_def three_events_def three_fibers_def
        IO_EVENT_READABLE_def IO_EVENT_WRITABLE_def)
  have t0: "transfers EPoll_three = []" "transfers KQueue_three = []"
    by (simp_all add: EPoll_three_def KQueue_three_def)
  note c = handle_resumes_linked_waiters[OF h1 h2 h3 h4 h5 k1 k2 k3 k4 h5, of 3]
  have 1: "\<exists>st' zs. IO_Event_Selector_EPoll_handle 4
               (cancelling_transfer cancel_second (EPoll_fiber_transfer parked_script)) (Stack 0) 3
               (EPOLLIN OR EPOLLOUT) EPoll_three
         = Some (Inr [(11, IO_EVENT_READABLE), (13, IO_EVENT_READABLE OR IO_EVENT_WRITABLE)], st')
        \<and> transfers st' = [(11, IO_EVENT_READABLE), (13, IO_EVENT_READABLE OR IO_EVENT_WRITABLE)]
        \<and> dll (links st') (Descriptor_list 3) zs \<and> Stack 0 \<notin> set zs"
    using c[THEN conjunct1] cancel_example t0(1) by auto
  have 2: "\<exists>kst' zs. IO_Event_Selector_KQueue_handle 4 (KQueue_fiber_transfer parked_script) (Stack 0) 3 3
               KQueue_three
         = Some ([(11, IO_EVENT_READABLE), (13, IO_EVENT_READABLE)], kst')
        \<and> transfers kst' = [(11, IO_EVENT_READABLE), (13, IO_EVENT_READABLE)]
        \<and> dll (links kst') (Descriptor_list 3) zs \<and> Stack 0 \<notin> set zs"
    using c[THEN conjunct2, THEN conjunct1] ks t0(2) unfolding m2 by auto
  show ?thesis using 1 2 by blast
qed

text \<open>
  A waiter whose mask intersects \<open>E\<close> is not resumed by the handler when a fiber resumed
  before it has unlinked it. In \<open>EPoll_three\<close> and \<open>KQueue_both\<close> the three waiters are on
  the list of descriptor 3 and READABLE and WRITABLE have fired; fiber 12, at \<open>Stack 2\<close>,
  waits for WRITABLE. Fiber 11 is resumed first and cancels fiber 12, which leaves
  \<^verbatim>\<open>io_wait\<close> and unlinks its waiter. The handler goes on from \<^verbatim>\<open>saved.tail\<close>, which is
  the waiter of fiber 13, and transfers to the fibers 11 and 13 only.
\<close>

theorem handle_passes_over_cancelled_waiter:
  "map_option fst
     (IO_Event_Selector_EPoll_handle 4
        (cancelling_transfer cancel_second (EPoll_fiber_transfer parked_script)) (Stack 0) 3
        (EPOLLIN OR EPOLLOUT) EPoll_three)
     = Some (Inr [(11, IO_EVENT_READABLE), (13, IO_EVENT_READABLE OR IO_EVENT_WRITABLE)])
   \<and> map_option (transfers \<circ> snd)
     (IO_Event_Selector_EPoll_handle 4
        (cancelling_transfer cancel_second (EPoll_fiber_transfer parked_script)) (Stack 0) 3
        (EPOLLIN OR EPOLLOUT) EPoll_three)
     = Some [(11, IO_EVENT_READABLE), (13, IO_EVENT_READABLE OR IO_EVENT_WRITABLE)]
   \<and> map_option fst
     (IO_Event_Selector_KQueue_handle 4
        (cancelling_transfer cancel_second (KQueue_fiber_transfer parked_script)) (Stack 0) 3 3
        KQueue_both)
     = Some [(11, IO_EVENT_READABLE), (13, IO_EVENT_READABLE OR IO_EVENT_WRITABLE)]
   \<and> dll (links EPoll_three) (Descriptor_list 3) [Stack 1, Stack 2, Stack 3]
   \<and> dll (links KQueue_both) (Descriptor_list 3) [Stack 1, Stack 2, Stack 3]
   \<and> waiting_fiber EPoll_three (Stack 2) = 12 \<and> waiting_fiber KQueue_both (Stack 2) = 12
   \<and> waiting_events EPoll_three (Stack 2) AND events_from_epoll_flags (EPOLLIN OR EPOLLOUT)
       = IO_EVENT_WRITABLE
   \<and> waiting_events KQueue_both (Stack 2) AND descriptor_ready KQueue_both 3 = IO_EVENT_WRITABLE
   \<and> IO_EVENT_WRITABLE \<noteq> 0"
  by code_simp

text \<open>
  Claim C2. On the epoll backend, after the dispatch of a kernel event whose fired events
  are not contained in the armed mask of the record, the handler re-arms the descriptor with
  \<^verbatim>\<open>EPOLL_CTL_MOD\<close> to the new, narrower aggregate mask of the waiters that remain, or
  removes it with \<^verbatim>\<open>EPOLL_CTL_DEL\<close> when none remains. The source re-arms with the
  \<^verbatim>\<open>events\<close> member of the record, which no path narrows. In \<open>EPoll_two\<close> the kernel
  reports \<^verbatim>\<open>EPOLLOUT|EPOLLHUP\<close> (READABLE and WRITABLE, of which READABLE is not armed); the
  fiber waiting for WRITABLE is resumed and unlinks its waiter, the one waiting for PRIORITY
  stays. The handler then calls \<^verbatim>\<open>EPOLL_CTL_MOD\<close> with the flags of WRITABLE and PRIORITY,
  the mask that was armed before, not with those of PRIORITY alone.
\<close>

theorem EPoll_handle_rearms_unchanged_mask:
  "map_option (\<lambda>(r, s). (r, calls s, descriptor_events s 3,
                  map (links s) [Descriptor_list 3, Stack 1, Stack 2]))
     (IO_Event_Selector_EPoll_handle 3 (EPoll_fiber_transfer parked_script) (Stack 0) 3
        (EPOLLOUT OR EPOLLHUP) EPoll_two)
   = Some (Inr [(11, IO_EVENT_WRITABLE)],
           [Epoll_ctl EPOLL_CTL_MOD 3
              (epoll_flags_from_events (IO_EVENT_WRITABLE OR IO_EVENT_PRIORITY))],
           IO_EVENT_WRITABLE OR IO_EVENT_PRIORITY,
           [\<lparr>head = Some (Stack 2), tail = Some (Stack 2)\<rparr>,
            \<lparr>head = None, tail = None\<rparr>,
            \<lparr>head = Some (Descriptor_list 3), tail = Some (Descriptor_list 3)\<rparr>])
   \<and> epoll_flags_from_events (IO_EVENT_WRITABLE OR IO_EVENT_PRIORITY)
       \<noteq> epoll_flags_from_events IO_EVENT_PRIORITY
   \<and> events_from_epoll_flags (EPOLLOUT OR EPOLLHUP) AND descriptor_events EPoll_two 3
       \<noteq> events_from_epoll_flags (EPOLLOUT OR EPOLLHUP)"
  by code_simp

section \<open>The ready events of the kqueue handler\<close>



section \<open>The armed mask of the epoll backend\<close>

text \<open>
  Claim C10. On the epoll backend the armed mask recorded for a descriptor never loses a bit
  along any sequence of \<^verbatim>\<open>io_wait\<close> calls, resumptions (with a value, the cancellation value
  or an exception) and dispatches: \<^verbatim>\<open>io_wait\<close> leaves it or ORs the requested events into
  it, unlinking a waiter leaves it, and the re-arming after a dispatch leaves it. A
  descriptor that \<^verbatim>\<open>io_wait\<close> armed for a nonzero mask keeps a nonzero mask, and in a run
  from the initial state, where the kernel reports events only for descriptors that
  \<^verbatim>\<open>io_wait\<close> added, \<^verbatim>\<open>EPOLL_CTL_DEL\<close> is never called.
\<close>

theorem EPoll_armed_mask_never_narrows:
  assumes "EPoll_run steps st = Some st'"
  shows
    "(\<forall>d. descriptor_events st d AND descriptor_events st' d = descriptor_events st d)
     \<and> (st = EPoll_initial \<longrightarrow>
          \<not> list_ex is_del (calls st') \<and> (\<forall>d. interest st' d \<longrightarrow> descriptor_events st' d \<noteq> 0))
     \<and> (\<forall>c f d e w st0.
          IO_Event_Selector_EPoll_io_wait c f d e w st0 = Some (Suspended st) \<and> e \<noteq> 0
          \<longrightarrow> descriptor_events st' d \<noteq> 0)
     \<and> (\<forall>c f d e w p.
          IO_Event_Selector_EPoll_io_wait c f d e w st = Some p
          \<longrightarrow> descriptor_events (progress_state p) = descriptor_events st
            \<or> descriptor_events (progress_state p)
                = (descriptor_events st)(d := descriptor_events st d OR e))
     \<and> (\<forall>w s1. io_wait_ensure w st = Some s1 \<longrightarrow> descriptor_events s1 = descriptor_events st)
     \<and> (\<forall>E m fd d. descriptor_events (EPoll_handle_rearm E m fd d st) = descriptor_events st)"
proof -
  have g: "grows st st'" using assms by (rule EPoll_run_grows)
  then have mk: "mask_kept st st'" by (simp add: grows_def)
  have 1: "\<forall>d. descriptor_events st d AND descriptor_events st' d = descriptor_events st d"
    using mk by (simp add: mask_kept_def)
  have 2: "st = EPoll_initial \<longrightarrow>
          \<not> list_ex is_del (calls st') \<and> (\<forall>d. interest st' d \<longrightarrow> descriptor_events st' d \<noteq> 0)"
    using g armed_nonzero_initial by (auto simp: grows_def armed_nonzero_def)
  have 3: "\<forall>c f d e w st0.
          IO_Event_Selector_EPoll_io_wait c f d e w st0 = Some (Suspended st) \<and> e \<noteq> 0
          \<longrightarrow> descriptor_events st' d \<noteq> 0"
    using io_wait_suspended_nonzero mask_kept_nonzero[OF mk] by blast
  show ?thesis
    using 1 2 3 io_wait_events[of _ _ _ _ _ st] io_wait_ensure_events[of _ st] rearm_events[of _ _ _ _ st]
    by blast
qed

lemma run_example:
  "map_option (\<lambda>s. (calls s, descriptor_events s 3, links s (Descriptor_list 3)))
     (EPoll_run
       [Wait (Enter_io_wait None 11 3 IO_EVENT_READABLE (Stack 1)),
        Wait (Leave_io_wait (Resume Qnil) (Stack 1)),
        Handle 2 (Stack 0) 3 EPOLLIN parked_script] EPoll_initial)
   = Some ([Epoll_ctl EPOLL_CTL_ADD 3 (EPOLLIN OR EPOLLHUP OR EPOLLERR),
            Epoll_ctl EPOLL_CTL_MOD 3 (EPOLLIN OR EPOLLHUP OR EPOLLERR)],
           IO_EVENT_READABLE,
           \<lparr>head = Some (Descriptor_list 3), tail = Some (Descriptor_list 3)\<rparr>)"
  by code_simp

theorem EPoll_armed_mask_never_narrows_witness:
  "\<exists>st'. EPoll_run
       [Wait (Enter_io_wait None 11 3 IO_EVENT_READABLE (Stack 1)),
        Wait (Leave_io_wait (Resume Qnil) (Stack 1)),
        Handle 2 (Stack 0) 3 EPOLLIN parked_script] EPoll_initial = Some st'
     \<and> calls st' = [Epoll_ctl EPOLL_CTL_ADD 3 (EPOLLIN OR EPOLLHUP OR EPOLLERR),
            Epoll_ctl EPOLL_CTL_MOD 3 (EPOLLIN OR EPOLLHUP OR EPOLLERR)]
     \<and> descriptor_events st' 3 = IO_EVENT_READABLE
     \<and> links st' (Descriptor_list 3) = \<lparr>head = Some (Descriptor_list 3), tail = Some (Descriptor_list 3)\<rparr>
     \<and> \<not> list_ex is_del (calls st')"
proof -
  obtain st' where r: "EPoll_run
       [Wait (Enter_io_wait None 11 3 IO_EVENT_READABLE (Stack 1)),
        Wait (Leave_io_wait (Resume Qnil) (Stack 1)),
        Handle 2 (Stack 0) 3 EPOLLIN parked_script] EPoll_initial = Some st'"
    and c: "calls st' = [Epoll_ctl EPOLL_CTL_ADD 3 (EPOLLIN OR EPOLLHUP OR EPOLLERR),
            Epoll_ctl EPOLL_CTL_MOD 3 (EPOLLIN OR EPOLLHUP OR EPOLLERR)]"
      "descriptor_events st' 3 = IO_EVENT_READABLE"
      "links st' (Descriptor_list 3) = \<lparr>head = Some (Descriptor_list 3), tail = Some (Descriptor_list 3)\<rparr>"
    using run_example by auto
  have "\<not> list_ex is_del (calls st')"
    using EPoll_armed_mask_never_narrows[OF r] by blast
  then show ?thesis using r c by blast
qed

end
